theory Spec2Isabelle
  imports Complex_Main
begin

section \<open>JavaScript values used by the editor core\<close>

text \<open>
  Strings are modelled as byte lists holding the UTF-8 encoding of the JavaScript string;
  the separators the code searches for are ASCII, so searching, splitting and slicing at
  them agree with the UTF-16 original. Numbers are modelled exactly: integers as
  \<open>int\<close>, pixel positions as \<open>rat\<close>, and \<open>NaN\<close> as \<open>None\<close> of
  \<open>int option\<close>. Double-precision rounding beyond \<open>2 ^ 53\<close> and the value
  \<open>Infinity\<close> are outside the model.
\<close>

type_synonym jsnum = "int option"

subsection \<open>Number to string\<close>

definition digit_char :: "nat \<Rightarrow> char" where
  "digit_char d = ''0123456789abcdefghijklmnopqrstuvwxyz'' ! d"

function radix_digits :: "nat \<Rightarrow> nat \<Rightarrow> string" where
  "radix_digits r n =
     (if r < 2 \<or> n < r then [digit_char n]
      else radix_digits r (n div r) @ [digit_char (n mod r)])"
  by pat_completeness auto
termination
  by (relation "measure (\<lambda>(r, n). n)") auto

declare radix_digits.simps [simp del]

text \<open>\<open>Number.prototype.toString(radix)\<close> on an integer.\<close>

definition num_toString :: "nat \<Rightarrow> int \<Rightarrow> string" where
  "num_toString r i =
     (if i < 0 then CHR ''-'' # radix_digits r (nat (- i)) else radix_digits r (nat i))"

text \<open>\<open>String(n)\<close> and the template literal \<open>`${n}`\<close> on an integer.\<close>

definition js_String :: "int \<Rightarrow> string" where
  "js_String i = num_toString 10 i"

text \<open>\<open>String(s)\<close> on a possibly \<open>undefined\<close> string.\<close>

definition str_of_undef :: "string option \<Rightarrow> string" where
  "str_of_undef s = (case s of None \<Rightarrow> ''undefined'' | Some t \<Rightarrow> t)"

subsection \<open>White space, \<open>parseInt\<close>\<close>

definition is_ws1 :: "char \<Rightarrow> bool" where
  "is_ws1 a = (of_char a \<in> {9, 10, 11, 12, 13, 32 :: nat})"

definition is_ws2 :: "char \<Rightarrow> char \<Rightarrow> bool" where
  "is_ws2 a b = (of_char a = (194::nat) \<and> of_char b = (160::nat))"

definition is_ws3 :: "char \<Rightarrow> char \<Rightarrow> char \<Rightarrow> bool" where
  "is_ws3 a b c =
     (let x = of_char a :: nat; y = of_char b :: nat; z = of_char c :: nat in
        (x = 225 \<and> y = 154 \<and> z = 128) \<or>
        (x = 226 \<and> y = 128 \<and> (128 \<le> z \<and> z \<le> 138 \<or> z = 168 \<or> z = 169 \<or> z = 175)) \<or>
        (x = 226 \<and> y = 129 \<and> z = 159) \<or>
        (x = 227 \<and> y = 128 \<and> z = 128) \<or>
        (x = 239 \<and> y = 187 \<and> z = 191))"

text \<open>Leading white space and line terminators (ASCII, U+00A0, U+1680, U+2000..U+200A,
  U+2028, U+2029, U+202F, U+205F, U+3000, U+FEFF in UTF-8).\<close>

fun strip_ws :: "string \<Rightarrow> string" where
  "strip_ws (a # b # c # t) =
     (if is_ws1 a then strip_ws (b # c # t)
      else if is_ws2 a b then strip_ws (c # t)
      else if is_ws3 a b c then strip_ws t
      else a # b # c # t)"
| "strip_ws [a, b] =
     (if is_ws1 a then strip_ws [b] else if is_ws2 a b then [] else [a, b])"
| "strip_ws [a] = (if is_ws1 a then [] else [a])"
| "strip_ws [] = []"

text \<open>The same on a reversed string, for the trailing white space.\<close>

fun strip_ws_rev :: "string \<Rightarrow> string" where
  "strip_ws_rev (c # b # a # t) =
     (if is_ws1 c then strip_ws_rev (b # a # t)
      else if is_ws2 b c then strip_ws_rev (a # t)
      else if is_ws3 a b c then strip_ws_rev t
      else c # b # a # t)"
| "strip_ws_rev [c, b] =
     (if is_ws1 c then strip_ws_rev [b] else if is_ws2 b c then [] else [c, b])"
| "strip_ws_rev [c] = (if is_ws1 c then [] else [c])"
| "strip_ws_rev [] = []"

text \<open>\<open>String.prototype.trim\<close>.\<close>

definition js_trim :: "string \<Rightarrow> string" where
  "js_trim s = rev (strip_ws_rev (rev (strip_ws s)))"

definition digit_val :: "char \<Rightarrow> nat option" where
  "digit_val c =
     (let k = of_char c :: nat in
      if 48 \<le> k \<and> k \<le> 57 then Some (k - 48)
      else if 97 \<le> k \<and> k \<le> 122 then Some (k - 87)
      else if 65 \<le> k \<and> k \<le> 90 then Some (k - 55)
      else None)"

definition radix_digit :: "nat \<Rightarrow> char \<Rightarrow> nat option" where
  "radix_digit r c =
     (case digit_val c of None \<Rightarrow> None | Some d \<Rightarrow> if d < r then Some d else None)"

text \<open>The longest prefix of digits of the radix, and its value.\<close>

fun digit_prefix :: "nat \<Rightarrow> string \<Rightarrow> nat list" where
  "digit_prefix r [] = []"
| "digit_prefix r (c # cs) =
     (case radix_digit r c of None \<Rightarrow> [] | Some d \<Rightarrow> d # digit_prefix r cs)"

fun digits_value :: "nat \<Rightarrow> nat \<Rightarrow> nat list \<Rightarrow> nat" where
  "digits_value r acc [] = acc"
| "digits_value r acc (d # ds) = digits_value r (acc * r + d) ds"

text \<open>
  \<open>parseInt(s, radix)\<close> for the radixes the code passes, 10 and 36 (for these no
  \<open>0x\<close> prefix is removed): leading white space is skipped, one sign is read, then
  the longest run of digits; no digit gives \<open>NaN\<close>. The value is exact: the source
  returns a double, which is the same number below \<open>2 ^ 53\<close>, a rounded one beyond
  and \<open>Infinity\<close> from about 309 decimal digits on; what is proved of numbers read
  by \<open>parseInt\<close> is about inputs below \<open>2 ^ 53\<close>.
\<close>

definition parseInt :: "string \<Rightarrow> nat \<Rightarrow> jsnum" where
  "parseInt s r =
     (let t = strip_ws s;
          neg = (case t of [] \<Rightarrow> False | c # _ \<Rightarrow> c = CHR ''-'');
          u = (case t of [] \<Rightarrow> [] | c # cs \<Rightarrow> if c = CHR ''-'' \<or> c = CHR ''+'' then cs else t);
          ds = digit_prefix r u
      in if ds = [] then None
         else Some (if neg then - int (digits_value r 0 ds) else int (digits_value r 0 ds)))"

subsection \<open>Arrays and strings\<close>

text \<open>\<open>xs[i]\<close>: \<open>undefined\<close> outside the array.\<close>

definition js_index :: "'a list \<Rightarrow> int \<Rightarrow> 'a option" where
  "js_index xs i = (if 0 \<le> i \<and> i < int (length xs) then Some (xs ! nat i) else None)"

text \<open>\<open>xs.slice(s, e)\<close>; negative positions count from the end.\<close>

definition js_slice :: "'a list \<Rightarrow> int \<Rightarrow> int \<Rightarrow> 'a list" where
  "js_slice xs s e =
     (let n = int (length xs);
          from = (if s < 0 then max (n + s) 0 else min s n);
          to = (if e < 0 then max (n + e) 0 else min e n)
      in take (nat (to - from)) (drop (nat from) xs))"

text \<open>\<open>xs.slice(s)\<close>.\<close>

definition js_slice_from :: "'a list \<Rightarrow> int \<Rightarrow> 'a list" where
  "js_slice_from xs s = js_slice xs s (int (length xs))"

text \<open>\<open>xs.splice(0, d)\<close>: the array that is left.\<close>

definition js_splice0 :: "'a list \<Rightarrow> int \<Rightarrow> 'a list" where
  "js_splice0 xs d = drop (nat (min (max d 0) (int (length xs)))) xs"

text \<open>\<open>s.split(sep)\<close> at a one-character separator: never the empty array.\<close>

fun js_split :: "char \<Rightarrow> string \<Rightarrow> string list" where
  "js_split sep [] = [[]]"
| "js_split sep (c # cs) =
     (if c = sep then [] # js_split sep cs
      else (case js_split sep cs of [] \<Rightarrow> [[c]] | w # ws \<Rightarrow> (c # w) # ws))"

fun js_join :: "string \<Rightarrow> string list \<Rightarrow> string" where
  "js_join sep [] = []"
| "js_join sep [x] = x"
| "js_join sep (x # y # ys) = x @ sep @ js_join sep (y # ys)"

text \<open>\<open>s.indexOf(c)\<close>: \<open>-1\<close> when absent.\<close>

fun js_indexOf :: "char \<Rightarrow> string \<Rightarrow> int" where
  "js_indexOf c [] = - 1"
| "js_indexOf c (d # ds) =
     (if d = c then 0 else (let i = js_indexOf c ds in if i < 0 then - 1 else i + 1))"

text \<open>The two leading names of an array destructuring \<open>[a, b] = xs\<close>.\<close>

definition destr1 :: "'a list \<Rightarrow> 'a option" where
  "destr1 xs = js_index xs 0"

definition destr2 :: "'a list \<Rightarrow> 'a option" where
  "destr2 xs = js_index xs 1"

section \<open>Grid constants and the world (state.js, dom.js, render.js)\<close>

definition BASE_CELLS_X :: nat where "BASE_CELLS_X = 1200"
definition BASE_CELLS_Y :: nat where "BASE_CELLS_Y = 1200"

text \<open>
  \<open>cellPx()\<close> reads the CSS variable \<open>--cell\<close>; its computed value is the
  parameter \<open>css\<close>.
\<close>

definition cellPx :: "string \<Rightarrow> int" where
  "cellPx css = (case parseInt css 10 of None \<Rightarrow> 48 | Some v \<Rightarrow> if v > 0 then v else 48)"

text \<open>The \<open>#world\<close> element, as far as the core reads it.\<close>

record world =
  clientWidth :: int
  clientHeight :: int

text \<open>
  \<open>setWorldSizeCells(cols, rows)\<close> sets the element's style width and height; its
  client size is taken to be that size, which assumes a stylesheet that gives the element
  no padding, border or scroll bar.
\<close>

definition setWorldSizeCells :: "string \<Rightarrow> nat \<Rightarrow> nat \<Rightarrow> world" where
  "setWorldSizeCells css cols rows =
     (let c = cellPx css;
          pxW = int cols * c;
          pxH = int rows * c
      in \<lparr>clientWidth = pxW, clientHeight = pxH\<rparr>)"

section \<open>Coordinate transforms (transform.js)\<close>


definition posToCell :: "string \<Rightarrow> rat \<Rightarrow> rat \<Rightarrow> int \<times> int" where
  "posToCell css left top' =
     (let c = cellPx css in (round (left / of_int c), round (top' / of_int c)))"

definition pointToCell :: "string \<Rightarrow> world \<Rightarrow> rat \<Rightarrow> rat \<Rightarrow> int \<times> int" where
  "pointToCell css w px py =
     (let c = cellPx css;
          cx = \<lfloor>px / of_int c\<rfloor>;
          cy = \<lfloor>py / of_int c\<rfloor>;
          maxCx = \<lceil>(of_int (clientWidth w) :: rat) / of_int c\<rceil> - 1;
          maxCy = \<lceil>(of_int (clientHeight w) :: rat) / of_int c\<rceil> - 1
      in (max 0 (min cx maxCx), max 0 (min cy maxCy)))"

definition keyOf :: "int \<Rightarrow> int \<Rightarrow> string" where
  "keyOf x y = js_String x @ '','' @ js_String y"

section \<open>Painter (painter.js)\<close>

definition KIND_PAINT_RADIUS :: "string \<rightharpoonup> int" where
  "KIND_PAINT_RADIUS = map_of [(''flag'', 3), (''hq'', 7)]"

definition PAINTER_KINDS :: "string set" where
  "PAINTER_KINDS = {''flag'', ''hq''}"

text \<open>The inner and the outer loop of \<open>cellsForKindAt\<close>; a cell is the pair \<open>(x, y)\<close>.\<close>

function row_cells :: "int \<Rightarrow> int \<Rightarrow> int \<Rightarrow> (int \<times> int) list" where
  "row_cells x maxx' y = (if x \<le> maxx' then (x, y) # row_cells (x + 1) maxx' y else [])"
  by pat_completeness auto
termination
  by (relation "measure (\<lambda>(x, m, y). nat (m + 1 - x))") auto

declare row_cells.simps [simp del]

function grid_cells :: "int \<Rightarrow> int \<Rightarrow> int \<Rightarrow> int \<Rightarrow> (int \<times> int) list" where
  "grid_cells y maxy' minx' maxx' =
     (if y \<le> maxy' then row_cells minx' maxx' y @ grid_cells (y + 1) maxy' minx' maxx' else [])"
  by pat_completeness auto
termination
  by (relation "measure (\<lambda>(y, m, a, b). nat (m + 1 - y))") auto

declare grid_cells.simps [simp del]

text \<open>The world's size in cells, \<open>Math.ceil(world.clientWidth / c)\<close>.\<close>

definition world_maxX :: "string \<Rightarrow> world \<Rightarrow> int" where
  "world_maxX css w = \<lceil>(of_int (clientWidth w) :: rat) / of_int (cellPx css)\<rceil>"

definition world_maxY :: "string \<Rightarrow> world \<Rightarrow> int" where
  "world_maxY css w = \<lceil>(of_int (clientHeight w) :: rat) / of_int (cellPx css)\<rceil>"

definition paint_radius :: "string \<Rightarrow> int" where
  "paint_radius kind = (case KIND_PAINT_RADIUS kind of None \<Rightarrow> 0 | Some r \<Rightarrow> r)"

definition cellsForKindAt :: "string \<Rightarrow> world \<Rightarrow> string \<Rightarrow> int \<Rightarrow> int \<Rightarrow> (int \<times> int) list" where
  "cellsForKindAt css w kind centerCx centerCy =
     (let r = paint_radius kind;
          maxX = world_maxX css w;
          maxY = world_maxY css w;
          minx' = max 0 (centerCx - r);
          maxx' = min (maxX - 1) (centerCx + r);
          miny' = max 0 (centerCy - r);
          maxy' = min (maxY - 1) (centerCy + r)
      in grid_cells miny' maxy' minx' maxx')"

record bbox =
  minx :: int
  miny :: int
  maxx :: int
  maxy :: int

definition areaBoundingBox :: "string \<Rightarrow> world \<Rightarrow> string \<Rightarrow> int \<Rightarrow> int \<Rightarrow> bbox" where
  "areaBoundingBox css w kind centerCx centerCy =
     (let r = paint_radius kind;
          maxX = world_maxX css w;
          maxY = world_maxY css w
      in \<lparr>minx = max 0 (centerCx - r),
          miny = max 0 (centerCy - r),
          maxx = min (maxX - 1) (centerCx + r),
          maxy = min (maxY - 1) (centerCy + r)\<rparr>)"

section \<open>Blocks and their validation (blocks.js)\<close>

text \<open>
  A block of \<open>state.blocks\<close>. \<open>b_width\<close> and \<open>b_height\<close> are present on custom
  blocks only. \<open>b_labelText\<close> stands for the text content of the block's label element,
  \<open>(labelEl?.textContent || '')\<close>.
\<close>

record block =
  b_kind :: string
  b_size :: int
  b_left :: rat
  b_top :: rat
  b_width :: "int option"
  b_height :: "int option"
  b_immutable :: bool
  b_labelText :: string
  b_customLabel :: bool

text \<open>\<open>b.width || b.size\<close>: an absent or zero width falls back to the size.\<close>

definition or_size :: "int option \<Rightarrow> int \<Rightarrow> int" where
  "or_size v s = (case v of None \<Rightarrow> s | Some n \<Rightarrow> if n = 0 then s else n)"

text \<open>The inner loop of the validation: some cell of the row is not painted.\<close>

function row_unpainted :: "string set \<Rightarrow> int \<Rightarrow> int \<Rightarrow> int \<Rightarrow> bool" where
  "row_unpainted paintedSet x xend y =
     (if x < xend then (if keyOf x y \<notin> paintedSet then True
                        else row_unpainted paintedSet (x + 1) xend y)
      else False)"
  by pat_completeness auto
termination
  by (relation "measure (\<lambda>(p, x, e, y). nat (e - x))") auto

declare row_unpainted.simps [simp del]

text \<open>The outer loop, which stops at the first row that sets \<open>invalid\<close>.\<close>

function rows_unpainted :: "string set \<Rightarrow> int \<Rightarrow> int \<Rightarrow> int \<Rightarrow> int \<Rightarrow> bool" where
  "rows_unpainted paintedSet y yend cx xend =
     (if y < yend then (if row_unpainted paintedSet cx xend y then True
                        else rows_unpainted paintedSet (y + 1) yend cx xend)
      else False)"
  by pat_completeness auto
termination
  by (relation "measure (\<lambda>(p, y, e, a, b). nat (e - y))") auto

declare rows_unpainted.simps [simp del]

text \<open>The flag \<open>invalid\<close> that \<open>validateAllObjects\<close> computes for one block.\<close>

definition block_invalid :: "string \<Rightarrow> string set \<Rightarrow> block \<Rightarrow> bool" where
  "block_invalid css paintedSet b =
     (let needsValidation = (b_kind b = ''city'' \<or> b_kind b = ''trap'') in
      if needsValidation then
        (let (cx, cy) = posToCell css (b_left b) (b_top b);
             width = (if b_kind b = ''custom'' then or_size (b_width b) (b_size b) else b_size b);
             height = (if b_kind b = ''custom'' then or_size (b_height b) (b_size b) else b_size b)
         in rows_unpainted paintedSet cy (cy + height) cx (cx + width))
      else False)"

text \<open>\<open>validateAllObjects\<close>: every block with the flag its style is applied with.\<close>

definition validateAllObjects :: "string \<Rightarrow> string set \<Rightarrow> block list \<Rightarrow> (block \<times> bool) list" where
  "validateAllObjects css paintedSet bs = map (\<lambda>b. (b, block_invalid css paintedSet b)) bs"

section \<open>History (history.js)\<close>

definition HISTORY_LIMIT :: int where
  "HISTORY_LIMIT = 100"

record historyState =
  stack :: "string list"
  index :: int

definition historyState0 :: historyState where
  "historyState0 = \<lparr>stack = [], index = - 1\<rparr>"

text \<open>
  The snapshot \<open>qs\<close> is the value of \<open>serializeState()\<close> at the call. What
  \<open>applySerialized\<close> receives is recorded beside the new history.
\<close>

datatype applied = Skipped | Applied "string option"

definition initHistoryWithCurrent :: "string \<Rightarrow> historyState" where
  "initHistoryWithCurrent qs = \<lparr>stack = [qs], index = 0\<rparr>"

definition saveCheckpoint :: "string \<Rightarrow> historyState \<Rightarrow> historyState" where
  "saveCheckpoint qs h =
     (let cur = js_index (stack h) (index h) in
      if Some qs = cur then h
      else
        (let st = js_slice (stack h) 0 (index h + 1) @ [qs];
             h1 = h\<lparr>stack := st\<rparr>;
             h2 = (if int (length (stack h1)) > HISTORY_LIMIT then
                     (let drop = int (length (stack h1)) - HISTORY_LIMIT
                      in h1\<lparr>stack := js_splice0 (stack h1) drop,
                            index := max 0 (index h1 - drop)\<rparr>)
                   else h1)
         in h2\<lparr>index := int (length (stack h2)) - 1\<rparr>))"

definition canUndo :: "historyState \<Rightarrow> bool" where
  "canUndo h = (index h > 0)"

definition canRedo :: "historyState \<Rightarrow> bool" where
  "canRedo h = (index h < int (length (stack h)) - 1)"

definition undo :: "historyState \<Rightarrow> historyState \<times> applied" where
  "undo h =
     (if \<not> canUndo h then (h, Skipped)
      else (let h' = h\<lparr>index := index h - 1\<rparr>
            in (h', Applied (js_index (stack h') (index h')))))"

definition redo :: "historyState \<Rightarrow> historyState \<times> applied" where
  "redo h =
     (if \<not> canRedo h then (h, Skipped)
      else (let h' = h\<lparr>index := index h + 1\<rparr>
            in (h', Applied (js_index (stack h') (index h')))))"

text \<open>A call of the public interface, and a run of calls from a history.\<close>

datatype call = SaveCheckpoint string | Undo | Redo

fun do_call :: "historyState \<Rightarrow> call \<Rightarrow> historyState \<times> applied" where
  "do_call h (SaveCheckpoint qs) = (saveCheckpoint qs h, Skipped)"
| "do_call h Undo = undo h"
| "do_call h Redo = redo h"

fun run_calls :: "historyState \<Rightarrow> call list \<Rightarrow> historyState" where
  "run_calls h [] = h"
| "run_calls h (c # cs) = run_calls (fst (do_call h c)) cs"

text \<open>The invariant of the history: a non-empty bounded stack and an index inside it.\<close>

definition history_inv :: "historyState \<Rightarrow> bool" where
  "history_inv h \<longleftrightarrow>
     stack h \<noteq> [] \<and> int (length (stack h)) \<le> HISTORY_LIMIT \<and>
     0 \<le> index h \<and> index h \<le> int (length (stack h)) - 1"

section \<open>URL state codec (urlState.js)\<close>

subsection \<open>Percent-encoding and UTF-8\<close>

datatype error = URIError

definition hex_upper :: "nat \<Rightarrow> char" where
  "hex_upper d = ''0123456789ABCDEF'' ! d"

definition hex_val :: "char \<Rightarrow> nat option" where
  "hex_val c =
     (let k = of_char c :: nat in
      if 48 \<le> k \<and> k \<le> 57 then Some (k - 48)
      else if 97 \<le> k \<and> k \<le> 102 then Some (k - 87)
      else if 65 \<le> k \<and> k \<le> 70 then Some (k - 55)
      else None)"

definition pct_byte :: "char \<Rightarrow> string" where
  "pct_byte c = [CHR ''%'', hex_upper (of_char c div 16), hex_upper (of_char c mod 16)]"

definition is_alnum :: "char \<Rightarrow> bool" where
  "is_alnum c =
     (let k = of_char c :: nat in
      (48 \<le> k \<and> k \<le> 57) \<or> (65 \<le> k \<and> k \<le> 90) \<or> (97 \<le> k \<and> k \<le> 122))"

text \<open>The characters \<open>encodeURIComponent\<close> leaves alone: letters, digits and
  \<open>- _ . ! ~ * ' ( )\<close>.\<close>

definition uri_unreserved :: "char \<Rightarrow> bool" where
  "uri_unreserved c = (is_alnum c \<or> c \<in> set ''-_.!~*()'' \<or> c = CHR 0x27)"

text \<open>
  \<open>encodeURIComponent\<close> escapes every byte of the UTF-8 form of the other characters.
  (It throws on a lone surrogate, which no UTF-8 string holds.)
\<close>

definition encodeURIComponent :: "string \<Rightarrow> string" where
  "encodeURIComponent s = concat (map (\<lambda>c. if uri_unreserved c then [c] else pct_byte c) s)"

text \<open>The number of leading one bits of a byte, up to 5.\<close>

definition leading_ones :: "char \<Rightarrow> nat" where
  "leading_ones c =
     (let k = of_char c :: nat in
      if k < 128 then 0 else if k < 192 then 1 else if k < 224 then 2
      else if k < 240 then 3 else if k < 248 then 4 else 5)"

definition is_cont :: "char \<Rightarrow> bool" where
  "is_cont c = (128 \<le> (of_char c :: nat) \<and> (of_char c :: nat) \<le> 191)"

text \<open>The well-formed UTF-8 encodings of one code point beyond ASCII.\<close>

fun valid_utf8_char :: "string \<Rightarrow> bool" where
  "valid_utf8_char [a, b] = (194 \<le> (of_char a :: nat) \<and> (of_char a :: nat) \<le> 223 \<and> is_cont b)"
| "valid_utf8_char [a, b, c] =
     (let x = of_char a :: nat; y = of_char b :: nat in
      224 \<le> x \<and> x \<le> 239 \<and> is_cont b \<and> is_cont c \<and>
      (if x = 224 then 160 \<le> y else True) \<and> (if x = 237 then y \<le> 159 else True))"
| "valid_utf8_char [a, b, c, d] =
     (let x = of_char a :: nat; y = of_char b :: nat in
      240 \<le> x \<and> x \<le> 244 \<and> is_cont b \<and> is_cont c \<and> is_cont d \<and>
      (if x = 240 then 144 \<le> y else True) \<and> (if x = 244 then y \<le> 143 else True))"
| "valid_utf8_char _ = False"

text \<open>One escape \<open>%XX\<close> at the head of a string, and \<open>n\<close> of them in a row.\<close>

fun read_escape :: "string \<Rightarrow> (char \<times> string) option" where
  "read_escape (p # h1 # h2 # t) =
     (if p = CHR ''%'' then
        (case (hex_val h1, hex_val h2) of
           (Some a, Some b) \<Rightarrow> Some (char_of (16 * a + b), t)
         | _ \<Rightarrow> None)
      else None)"
| "read_escape _ = None"

fun take_escapes :: "nat \<Rightarrow> string \<Rightarrow> (string \<times> string) option" where
  "take_escapes 0 s = Some ([], s)"
| "take_escapes (Suc n) s =
     (case read_escape s of
        None \<Rightarrow> None
      | Some (b, t) \<Rightarrow>
          (case take_escapes n t of
             None \<Rightarrow> None
           | Some (bs, rest) \<Rightarrow> Some (b # bs, rest)))"

lemma read_escape_length: "read_escape s = Some (b, t) \<Longrightarrow> length t < length s"
  by (induction s rule: read_escape.induct) (auto split: if_splits option.splits)

lemma take_escapes_length: "take_escapes n s = Some (bs, t) \<Longrightarrow> length t \<le> length s"
proof (induction n arbitrary: s bs)
  case 0
  then show ?case by simp
next
  case (Suc n)
  then show ?case
    by (fastforce split: option.splits dest: read_escape_length)
qed

text \<open>
  \<open>decodeURIComponent\<close>: an escape that is cut short, is not hexadecimal or does not
  decode to well-formed UTF-8 throws \<open>URIError\<close>; any other character is kept.
\<close>

function decodeURIComponent :: "string \<Rightarrow> error + string" where
  "decodeURIComponent [] = Inr []"
| "decodeURIComponent (c # t) =
     (if c \<noteq> CHR ''%'' then
        (case decodeURIComponent t of Inl e \<Rightarrow> Inl e | Inr r \<Rightarrow> Inr (c # r))
      else
        (case read_escape (c # t) of
           None \<Rightarrow> Inl URIError
         | Some (B, t') \<Rightarrow>
             (let n = leading_ones B in
              if n = 0 then
                (case decodeURIComponent t' of Inl e \<Rightarrow> Inl e | Inr r \<Rightarrow> Inr (B # r))
              else if n = 1 \<or> n > 4 then Inl URIError
              else
                (case take_escapes (n - 1) t' of
                   None \<Rightarrow> Inl URIError
                 | Some (cs, t'') \<Rightarrow>
                     if valid_utf8_char (B # cs) then
                       (case decodeURIComponent t'' of
                          Inl e \<Rightarrow> Inl e
                        | Inr r \<Rightarrow> Inr (B # cs @ r))
                     else Inl URIError))))"
  by pat_completeness auto
termination
proof (relation "measure length")
  show "wf (measure length)" by simp
next
  fix c :: char and t :: string
  show "(t, c # t) \<in> measure length" by simp
next
  fix c t x2 x y xa
  assume "read_escape (c # t) = Some x2" "(x, y) = x2"
  then have "length y < length (c # t)"
    using read_escape_length by metis
  then show "(y, c # t) \<in> measure length" by simp
next
  fix c t x2 x y xa x2a xb ya
  assume "read_escape (c # t) = Some x2" "(x, y) = x2"
    "take_escapes (xa - 1) y = Some x2a" "(xb, ya) = x2a"
  then have "length y < length (c # t)" "length ya \<le> length y"
    using read_escape_length take_escapes_length by metis+
  then show "(ya, c # t) \<in> measure length" by simp
qed

declare decodeURIComponent.simps [simp del]

text \<open>
  The UTF-8 decoder of the URL standard, which \<open>URLSearchParams\<close> applies after
  percent-decoding: an ill-formed sequence becomes U+FFFD and decoding goes on. The
  arguments are the number of bytes still needed, the bounds of the next byte, the bytes
  of the code point read so far, and the input.
\<close>

definition U_FFFD :: string where
  "U_FFFD = [CHR 0xEF, CHR 0xBF, CHR 0xBD]"

function utf8_lossy :: "nat \<Rightarrow> nat \<Rightarrow> nat \<Rightarrow> string \<Rightarrow> string \<Rightarrow> string" where
  "utf8_lossy need lo hi pend [] = (if need = 0 then [] else U_FFFD)"
| "utf8_lossy need lo hi pend (b # t) =
     (let k = of_char b :: nat in
      if need = 0 then
        (if k \<le> 127 then b # utf8_lossy 0 128 191 [] t
         else if 194 \<le> k \<and> k \<le> 223 then utf8_lossy 1 128 191 [b] t
         else if 224 \<le> k \<and> k \<le> 239 then
           utf8_lossy 2 (if k = 224 then 160 else 128) (if k = 237 then 159 else 191) [b] t
         else if 240 \<le> k \<and> k \<le> 244 then
           utf8_lossy 3 (if k = 240 then 144 else 128) (if k = 244 then 143 else 191) [b] t
         else U_FFFD @ utf8_lossy 0 128 191 [] t)
      else if k < lo \<or> hi < k then U_FFFD @ utf8_lossy 0 128 191 [] (b # t)
      else if need = 1 then pend @ b # utf8_lossy 0 128 191 [] t
      else utf8_lossy (need - 1) 128 191 (pend @ [b]) t)"
  by pat_completeness auto
termination
  by (relation "measure (\<lambda>(need, lo, hi, pend, s). 2 * length s + (if need = 0 then 0 else 1))")
    auto

declare utf8_lossy.simps [simp del]

subsection \<open>\<open>URLSearchParams\<close>\<close>

type_synonym params = "(string \<times> string) list"

text \<open>The serializer keeps letters, digits and \<open>* - . _\<close>, writes a space as
  \<open>+\<close> and escapes every other byte.\<close>

definition form_byte :: "char \<Rightarrow> string" where
  "form_byte c =
     (if is_alnum c \<or> c \<in> set ''*-._'' then [c]
      else if c = CHR '' '' then ''+''
      else pct_byte c)"

definition form_encode :: "string \<Rightarrow> string" where
  "form_encode s = concat (map form_byte s)"

definition usp_toString :: "params \<Rightarrow> string" where
  "usp_toString ps = js_join ''&'' (map (\<lambda>(n, v). form_encode n @ ''='' @ form_encode v) ps)"

text \<open>\<open>params.set(name, value)\<close>: the first entry of the name takes the value and the
  others go; a new name is appended.\<close>

definition usp_set :: "string \<Rightarrow> string \<Rightarrow> params \<Rightarrow> params" where
  "usp_set name v ps =
     (if name \<in> fst ` set ps then
        (let i = length (takeWhile (\<lambda>p. fst p \<noteq> name) ps)
         in take i ps @ (name, v) # filter (\<lambda>p. fst p \<noteq> name) (drop (Suc i) ps))
      else ps @ [(name, v)])"

text \<open>\<open>params.get(name)\<close>: the first value of the name, or \<open>null\<close>.\<close>

definition usp_get :: "string \<Rightarrow> params \<Rightarrow> string option" where
  "usp_get name ps = map_of ps name"

text \<open>Percent-decoding of the parser: an escape that is not two hexadecimal digits
  stays as it is.\<close>

function percent_decode :: "string \<Rightarrow> string" where
  "percent_decode [] = []"
| "percent_decode (c # t) =
     (case read_escape (c # t) of
        None \<Rightarrow> c # percent_decode t
      | Some (b, t') \<Rightarrow> b # percent_decode t')"
  by pat_completeness auto
termination
proof (relation "measure length")
  show "wf (measure length)" by simp
next
  fix c :: char and t :: string
  show "(t, c # t) \<in> measure length" by simp
next
  fix c t x2 x y
  assume "read_escape (c # t) = Some x2" "(x, y) = x2"
  then have "length y < length (c # t)"
    using read_escape_length by metis
  then show "(y, c # t) \<in> measure length" by simp
qed

declare percent_decode.simps [simp del]

definition form_decode :: "string \<Rightarrow> string" where
  "form_decode s =
     utf8_lossy 0 128 191 []
       (percent_decode (map (\<lambda>c. if c = CHR ''+'' then CHR '' '' else c) s))"

text \<open>\<open>new URLSearchParams(qs)\<close>: a leading \<open>?\<close> is dropped, the string is cut at
  \<open>&\<close>, and each non-empty piece at its first \<open>=\<close>.\<close>

definition usp_pair :: "string \<Rightarrow> params" where
  "usp_pair piece =
     (if piece = [] then []
      else
        (let i = js_indexOf CHR ''='' piece;
             name = (if i < 0 then piece else js_slice piece 0 i);
             v = (if i < 0 then [] else js_slice_from piece (i + 1))
         in [(form_decode name, form_decode v)]))"

definition usp_parse :: "string \<Rightarrow> params" where
  "usp_parse qs =
     (let s = (case qs of [] \<Rightarrow> [] | c # t \<Rightarrow> if c = CHR ''?'' then t else qs)
      in concat (map usp_pair (js_split CHR ''&'' s)))"

subsection \<open>Kind codes and base 36\<close>

definition KIND_CODE_entries :: "(string \<times> string) list" where
  "KIND_CODE_entries =
     [(''block'', ''B''), (''flag'', ''F''), (''hq'', ''H''), (''city'', ''C''),
      (''resource'', ''R''), (''trap'', ''T''), (''custom'', ''X'')]"

text \<open>The two tables are looked up by their own keys only; properties inherited from
  \<open>Object.prototype\<close> are not modelled.\<close>

definition KIND_TO_CODE :: "string \<rightharpoonup> string" where
  "KIND_TO_CODE = map_of KIND_CODE_entries"

definition CODE_TO_KIND :: "string \<rightharpoonup> string" where
  "CODE_TO_KIND = map_of (rev (map (\<lambda>(k, v). (v, k)) KIND_CODE_entries))"

definition toB36 :: "int \<Rightarrow> string" where
  "toB36 n = num_toString 36 n"

text \<open>\<open>parseInt\<close> on an argument that may be \<open>undefined\<close>.\<close>

definition parseInt_u :: "string option \<Rightarrow> nat \<Rightarrow> jsnum" where
  "parseInt_u s r = parseInt (str_of_undef s) r"

definition fromB36 :: "string option \<Rightarrow> jsnum" where
  "fromB36 s = parseInt_u s 36"

subsection \<open>Red paint, row-wise run lengths\<close>

text \<open>\<open>byY\<close> is a \<open>Map\<close> from a row to its columns, in insertion order.\<close>

fun byY_push :: "int \<Rightarrow> int \<Rightarrow> (int \<times> int list) list \<Rightarrow> (int \<times> int list) list" where
  "byY_push y x [] = [(y, [x])]"
| "byY_push y x ((y', xs) # m) =
     (if y' = y then (y', xs @ [x]) # m else (y', xs) # byY_push y x m)"

text \<open>The first loop of \<open>encodeRedRLE\<close>; the set is the list of its keys in insertion
  order.\<close>

fun group_byY :: "string list \<Rightarrow> (int \<times> int list) list \<Rightarrow> (int \<times> int list) list" where
  "group_byY [] m = m"
| "group_byY (k # ks) m =
     (let parts = js_split CHR '','' k;
          x = parseInt_u (destr1 parts) 10;
          y = parseInt_u (destr2 parts) 10
      in case (x, y) of
           (Some x', Some y') \<Rightarrow> group_byY ks (byY_push y' x' m)
         | _ \<Rightarrow> group_byY ks m)"

text \<open>The loop over a sorted row; \<open>start\<close> and \<open>prev\<close> are \<open>null\<close> together.\<close>

fun collect_runs :: "int list \<Rightarrow> (int \<times> int) option \<Rightarrow> (int \<times> int) list" where
  "collect_runs [] None = []"
| "collect_runs [] (Some (start, prev)) = [(start, prev)]"
| "collect_runs (x # xs) None = collect_runs xs (Some (x, x))"
| "collect_runs (x # xs) (Some (start, prev)) =
     (if x = prev + 1 then collect_runs xs (Some (start, x))
      else (start, prev) # collect_runs xs (Some (x, x)))"

definition fmt_num :: "bool \<Rightarrow> int \<Rightarrow> string" where
  "fmt_num useBase36 n = (if useBase36 then toB36 n else js_String n)"

definition run_str :: "bool \<Rightarrow> int \<times> int \<Rightarrow> string" where
  "run_str useBase36 r =
     (case r of (a, b) \<Rightarrow>
        (let A = fmt_num useBase36 a; B = fmt_num useBase36 b
         in if a = b then A else A @ ''-'' @ B))"

definition row_str :: "bool \<Rightarrow> (int \<times> int list) list \<Rightarrow> int \<Rightarrow> string" where
  "row_str useBase36 byY y =
     (let xs = sort (case map_of byY y of None \<Rightarrow> [] | Some v \<Rightarrow> v);
          runs = collect_runs xs None;
          runStr = js_join '','' (map (run_str useBase36) runs);
          Y = fmt_num useBase36 y
      in Y @ '':'' @ runStr)"

definition encodeRedRLE :: "string list \<Rightarrow> bool \<Rightarrow> string" where
  "encodeRedRLE userPaintSet useBase36 =
     (if userPaintSet = [] then []
      else
        (let byY = group_byY userPaintSet [];
             ys = sort (map fst byY);
             rows = map (row_str useBase36 byY) ys
         in js_join '';'' rows))"

text \<open>The loop \<open>for (x = start; x <= end; x++)\<close> of \<open>decodeRed\<close>, for bounds
  below \<open>2 ^ 53\<close> and a range that fits an array (fewer than \<open>2 ^ 32\<close> keys); beyond
  these the source's counter stalls or the array overflows, which is not modelled.\<close>

function range_keys :: "int \<Rightarrow> int \<Rightarrow> int \<Rightarrow> string list" where
  "range_keys x e y =
     (if x \<le> e then (js_String x @ '','' @ js_String y) # range_keys (x + 1) e y else [])"
  by pat_completeness auto
termination
  by (relation "measure (\<lambda>(x, e, y). nat (e + 1 - x))") auto

declare range_keys.simps [simp del]

definition parse_num :: "bool \<Rightarrow> string option \<Rightarrow> jsnum" where
  "parse_num useBase36 s = (if useBase36 then fromB36 s else parseInt_u s 10)"

definition decode_run :: "bool \<Rightarrow> int \<Rightarrow> string \<Rightarrow> string list" where
  "decode_run useBase36 y r =
     (if r = [] then []
      else if CHR ''-'' \<in> set r then
        (let parts = js_split CHR ''-'' r;
             a = parse_num useBase36 (destr1 parts);
             b = parse_num useBase36 (destr2 parts)
         in case (a, b) of
              (Some a', Some b') \<Rightarrow> range_keys (min a' b') (max a' b') y
            | _ \<Rightarrow> [])
      else
        (case parse_num useBase36 (Some r) of
           None \<Rightarrow> []
         | Some x \<Rightarrow> [js_String x @ '','' @ js_String y]))"

definition decode_row :: "bool \<Rightarrow> string \<Rightarrow> string list" where
  "decode_row useBase36 row =
     (if row = [] then []
      else
        (let parts = js_split CHR '':'' row;
             yStr = destr1 parts;
             runsStr = destr2 parts
         in case runsStr of
              None \<Rightarrow> []
            | Some rs \<Rightarrow>
                if rs = [] then []
                else
                  (case parse_num useBase36 yStr of
                     None \<Rightarrow> []
                   | Some y \<Rightarrow> concat (map (decode_run useBase36 y) (js_split CHR '','' rs)))))"

text \<open>An entry of the legacy list \<open>x,y;x,y\<close>.\<close>

definition decode_pair :: "bool \<Rightarrow> string \<Rightarrow> string list" where
  "decode_pair useBase36 p =
     (if p = [] then []
      else
        (let parts = js_split CHR '','' p;
             x = parse_num useBase36 (destr1 parts);
             y = parse_num useBase36 (destr2 parts)
         in case (x, y) of
              (Some x', Some y') \<Rightarrow> [js_String x' @ '','' @ js_String y']
            | _ \<Rightarrow> []))"

definition decodeRed :: "string \<Rightarrow> bool \<Rightarrow> string list" where
  "decodeRed str useBase36 =
     (if str = [] then []
      else
        (let isRLE = (CHR '':'' \<in> set str)
         in if isRLE then concat (map (decode_row useBase36) (js_split CHR '';'' str))
            else concat (map (decode_pair useBase36) (js_split CHR '';'' str))))"

subsection \<open>Serializing the state\<close>

text \<open>The part of \<open>state\<close> that is serialized: the blocks and the keys of the user
  paint set in insertion order.\<close>

record state =
  st_blocks :: "block list"
  st_userPaint :: "string list"

text \<open>The default labels of a city, the Korean word of the code points U+B3C4 U+C2DC and
  \<open>'City'\<close>, and the multiplication sign U+00D7 of the default label of a custom
  block (its width, the sign, its height), in UTF-8.\<close>

definition city_ko :: string where
  "city_ko = [CHR 0xEB, CHR 0x8F, CHR 0x84, CHR 0xEC, CHR 0x8B, CHR 0x9C]"

definition times_sign :: string where
  "times_sign = [CHR 0xC3, CHR 0x97]"

text \<open>The token of one block, the function mapped over the blocks in
  \<open>serializeState\<close>.\<close>

definition block_token :: "string \<Rightarrow> block \<Rightarrow> string" where
  "block_token css b =
     (let c = cellPx css;
          cx = round (b_left b / of_int c);
          cy = round (b_top b / of_int c);
          code = (case KIND_TO_CODE (b_kind b) of None \<Rightarrow> ''B'' | Some k \<Rightarrow> k);
          cx36 = toB36 cx;
          cy36 = toB36 cy;
          token =
            (if b_kind b = ''custom'' then
               (let w36 = toB36 (or_size (b_width b) (b_size b));
                    h36 = toB36 (or_size (b_height b) (b_size b))
                in code @ w36 @ ''x'' @ h36 @ ''@'' @ cx36 @ '','' @ cy36)
             else
               (let size36 = toB36 (b_size b)
                in code @ size36 @ ''@'' @ cx36 @ '','' @ cy36))
      in if b_kind b = ''city'' then
           (let label = js_trim (b_labelText b)
            in if label \<noteq> [] \<and> label \<noteq> city_ko \<and> label \<noteq> ''City''
               then token @ ''~'' @ encodeURIComponent label else token)
         else if b_kind b = ''custom'' then
           (let label = js_trim (b_labelText b);
                defaultLabel = js_String (or_size (b_width b) (b_size b)) @ times_sign
                               @ js_String (or_size (b_height b) (b_size b))
            in if label \<noteq> [] \<and> label \<noteq> defaultLabel
               then token @ ''~'' @ encodeURIComponent label else token)
         else token)"

definition serializeState :: "string \<Rightarrow> state \<Rightarrow> string" where
  "serializeState css st =
     (let bItems = map (block_token css) (filter (\<lambda>b. \<not> b_immutable b) (st_blocks st));
          rRLE = encodeRedRLE (st_userPaint st) True;
          params0 = usp_set ''b'' (js_join '';'' bItems) (usp_set ''v'' ''2'' []);
          params1 = (if rRLE \<noteq> [] then usp_set ''r'' rRLE params0 else params0)
      in usp_toString params1)"

subsection \<open>Deserializing\<close>

text \<open>An entry of the decoded \<open>blocks\<close>; \<open>it_width\<close> and \<open>it_height\<close> are present
  on custom entries only, \<open>it_label\<close> when the token has a label part.\<close>

record item =
  it_kind :: string
  it_width :: "jsnum option"
  it_height :: "jsnum option"
  it_size :: jsnum
  it_cx :: jsnum
  it_cy :: jsnum
  it_label :: "string option"

record parsed =
  p_blocks :: "item list"
  p_red :: "string list"
  p_ver :: string

text \<open>\<open>s || d\<close> on a string that may be \<open>null\<close>, and \<open>n || d\<close> on a number
  with a numeric default: the result is never \<open>NaN\<close>.\<close>

definition str_or :: "string option \<Rightarrow> string \<Rightarrow> string" where
  "str_or s d = (case s of None \<Rightarrow> d | Some t \<Rightarrow> if t = [] then d else t)"

definition num_or :: "jsnum \<Rightarrow> int \<Rightarrow> int" where
  "num_or n d = (case n of None \<Rightarrow> d | Some v \<Rightarrow> if v = 0 then d else v)"

text \<open>\<open>Math.max\<close> of two numbers: \<open>NaN\<close> when one of them is.\<close>

definition js_max :: "jsnum \<Rightarrow> jsnum \<Rightarrow> jsnum" where
  "js_max a b = (case (a, b) of (Some x, Some y) \<Rightarrow> Some (max x y) | _ \<Rightarrow> None)"

text \<open>
  The length in bytes of the first UTF-16 code unit of a string: \<open>head[0]\<close> is that
  prefix and \<open>head.slice(1)\<close> the rest. A character outside the basic plane is two code
  units over four bytes; the lead byte then stands for the first unit and the three
  continuation bytes for the second, which like them is neither a digit, white space nor a
  separator.
\<close>

definition unit_len :: "string \<Rightarrow> nat" where
  "unit_len s =
     (case s of
        [] \<Rightarrow> 0
      | c # _ \<Rightarrow> (let n = leading_ones c in if n = 2 then 2 else if n = 3 then 3 else 1))"

definition char0 :: "string \<Rightarrow> string option" where
  "char0 s = (if s = [] then None else Some (take (unit_len s) s))"

definition slice1 :: "string \<Rightarrow> string" where
  "slice1 s = drop (unit_len s) s"

text \<open>The body of the loop over the tokens: the entries it pushes, or the exception.\<close>

definition decode_token :: "bool \<Rightarrow> string \<Rightarrow> error + item list" where
  "decode_token isV2 token =
     (if token = [] then Inr []
      else
        (let atIdx = js_indexOf CHR ''@'' token in
         if atIdx < 0 then Inr []
         else
           (let head = js_slice token 0 atIdx;
                tail0 = js_slice_from token (atIdx + 1);
                tildeIdx = js_indexOf CHR ''~'' tail0
            in case (if tildeIdx \<ge> 0
                     then (case decodeURIComponent (js_slice_from tail0 (tildeIdx + 1)) of
                             Inl e \<Rightarrow> Inl e | Inr l \<Rightarrow> Inr (Some l))
                     else Inr None) of
                 Inl e \<Rightarrow> Inl e
               | Inr label \<Rightarrow>
                   (let tail = (if tildeIdx \<ge> 0 then js_slice tail0 0 tildeIdx else tail0);
                        code = char0 head;
                        sizeRaw = slice1 head;
                        parts = js_split CHR '','' tail;
                        cxStr = destr1 parts;
                        cyStr = destr2 parts;
                        cx = (if isV2 then parseInt_u cxStr 36 else Some (num_or (parseInt_u cxStr 10) 0));
                        cy = (if isV2 then parseInt_u cyStr 36 else Some (num_or (parseInt_u cyStr 10) 0));
                        kind0 = (case code of
                                   None \<Rightarrow> ''block''
                                 | Some c \<Rightarrow> (case CODE_TO_KIND c of None \<Rightarrow> ''block'' | Some k \<Rightarrow> k));
                        kind = (if kind0 = ''block'' then ''custom'' else kind0)
                    in if kind = ''custom'' \<and> CHR ''x'' \<in> set sizeRaw then
                         (let ps = js_split CHR ''x'' sizeRaw;
                              wStr = destr1 ps;
                              hStr = destr2 ps;
                              width = (if isV2 then parseInt_u wStr 36
                                       else Some (num_or (parseInt_u wStr 10) 1));
                              height = (if isV2 then parseInt_u hStr 36
                                        else Some (num_or (parseInt_u hStr 10) 1))
                          in Inr [\<lparr>it_kind = kind, it_width = Some width, it_height = Some height,
                                   it_size = js_max width height, it_cx = cx, it_cy = cy,
                                   it_label = label\<rparr>])
                       else
                         (let size' = (if isV2 then parseInt sizeRaw 36
                                       else Some (num_or (parseInt (if sizeRaw = [] then ''1'' else sizeRaw) 10) 1))
                          in if kind = ''custom'' then
                               Inr [\<lparr>it_kind = kind, it_width = Some size', it_height = Some size',
                                     it_size = size', it_cx = cx, it_cy = cy, it_label = label\<rparr>]
                             else
                               Inr [\<lparr>it_kind = kind, it_width = None, it_height = None,
                                     it_size = size', it_cx = cx, it_cy = cy,
                                     it_label = label\<rparr>])))))"

text \<open>The loop over the tokens stops at the first exception.\<close>

fun decode_tokens :: "bool \<Rightarrow> string list \<Rightarrow> error + item list" where
  "decode_tokens isV2 [] = Inr []"
| "decode_tokens isV2 (t # ts) =
     (case decode_token isV2 t of
        Inl e \<Rightarrow> Inl e
      | Inr b \<Rightarrow>
          (case decode_tokens isV2 ts of Inl e \<Rightarrow> Inl e | Inr bs \<Rightarrow> Inr (b @ bs)))"

definition deserializeState :: "string \<Rightarrow> error + parsed" where
  "deserializeState qs =
     (let params = usp_parse qs;
          ver = str_or (usp_get ''v'' params) ''1'';
          isV2 = (ver = ''2'');
          bstr = str_or (usp_get ''b'' params) []
      in case decode_tokens isV2 (js_split CHR '';'' bstr) of
           Inl e \<Rightarrow> Inl e
         | Inr blocks \<Rightarrow>
             (let redParam = str_or (usp_get ''r'' params) [];
                  red = decodeRed redParam isV2
              in Inr \<lparr>p_blocks = blocks, p_red = red, p_ver = ver\<rparr>))"

subsection \<open>Predicates used in the statements\<close>

text \<open>A string that is well-formed UTF-8, as the encoding of a JavaScript string without
  lone surrogates is.\<close>

function utf8_ok :: "string \<Rightarrow> bool" where
  "utf8_ok [] = True"
| "utf8_ok (b # t) =
     (let n = leading_ones b in
      if n = 0 then utf8_ok t
      else if n = 1 \<or> n > 4 then False
      else n - 1 \<le> length t \<and> valid_utf8_char (b # take (n - 1) t) \<and> utf8_ok (drop (n - 1) t))"
  by pat_completeness auto
termination
  by (relation "measure length") auto

declare utf8_ok.simps [simp del]

text \<open>The characters the serializer of \<open>URLSearchParams\<close> writes.\<close>

definition form_char :: "char \<Rightarrow> bool" where
  "form_char d \<longleftrightarrow> is_alnum d \<or> d \<in> set ''*-._+%''"

text \<open>The cells held by the map \<open>byY\<close>, and its being a map with non-empty rows.\<close>

definition byY_cells :: "(int \<times> int list) list \<Rightarrow> (int \<times> int) set" where
  "byY_cells m = {(x, y). \<exists>xs. (y, xs) \<in> set m \<and> x \<in> set xs}"

definition byY_ok :: "(int \<times> int list) list \<Rightarrow> bool" where
  "byY_ok m \<longleftrightarrow> distinct (map fst m) \<and> [] \<notin> snd ` set m"

subsection \<open>The round trip, stated\<close>

text \<open>The label that a token carries: that of a city or custom block whose trimmed label
  text is not empty and not a default.\<close>

definition persisted_label :: "block \<Rightarrow> string option" where
  "persisted_label b =
     (let l = js_trim (b_labelText b) in
      if b_kind b = ''city'' then
        (if l \<noteq> [] \<and> l \<noteq> city_ko \<and> l \<noteq> ''City'' then Some l else None)
      else if b_kind b = ''custom'' then
        (if l \<noteq> [] \<and> l \<noteq> js_String (or_size (b_width b) (b_size b)) @ times_sign
                              @ js_String (or_size (b_height b) (b_size b))
         then Some l else None)
      else None)"

text \<open>The decoded entry that corresponds to a block.\<close>

definition expected_item :: "string \<Rightarrow> block \<Rightarrow> item" where
  "expected_item css b =
     \<lparr>it_kind = b_kind b,
      it_width = (if b_kind b = ''custom'' then Some (b_width b) else None),
      it_height = (if b_kind b = ''custom'' then Some (b_height b) else None),
      it_size = Some (b_size b),
      it_cx = Some (fst (posToCell css (b_left b) (b_top b))),
      it_cy = Some (snd (posToCell css (b_left b) (b_top b))),
      it_label = persisted_label b\<rparr>"

text \<open>
  A block as the valid operations leave it: a kind of the palette, a cell position that
  is not negative, a size of at least one cell, for a custom block a width and a height
  from 1 to 30 with the size their maximum, and a label that is well-formed text.
\<close>

definition valid_block :: "string \<Rightarrow> block \<Rightarrow> bool" where
  "valid_block css b \<longleftrightarrow>
     b_kind b \<in> set [''flag'', ''hq'', ''city'', ''resource'', ''trap'', ''custom''] \<and>
     0 \<le> fst (posToCell css (b_left b) (b_top b)) \<and>
     0 \<le> snd (posToCell css (b_left b) (b_top b)) \<and>
     1 \<le> b_size b \<and>
     (if b_kind b = ''custom'' then
        (case (b_width b, b_height b) of
           (Some w, Some h) \<Rightarrow> 1 \<le> w \<and> w \<le> 30 \<and> 1 \<le> h \<and> h \<le> 30 \<and> b_size b = max w h
         | _ \<Rightarrow> False)
      else True) \<and>
     utf8_ok (js_trim (b_labelText b))"

text \<open>
  The equivalence of a block and a decoded entry as the round-trip claim words it: the
  same kind, size (width and height for a custom block), cell position and custom label.
\<close>

definition claimed_equivalent :: "string \<Rightarrow> block \<Rightarrow> item \<Rightarrow> bool" where
  "claimed_equivalent css b it \<longleftrightarrow>
     it_kind it = b_kind b \<and>
     (if b_kind b = ''custom''
      then it_width it = Some (b_width b) \<and> it_height it = Some (b_height b)
      else it_size it = Some (b_size b)) \<and>
     it_cx it = Some (fst (posToCell css (b_left b) (b_top b))) \<and>
     it_cy it = Some (snd (posToCell css (b_left b) (b_top b))) \<and>
     (if b_customLabel b then it_label it = Some (b_labelText b) else True)"

text \<open>The size field and the label part of a block's token.\<close>

definition size_field :: "block \<Rightarrow> string" where
  "size_field b =
     (if b_kind b = ''custom''
      then toB36 (or_size (b_width b) (b_size b)) @ CHR ''x'' # toB36 (or_size (b_height b) (b_size b))
      else toB36 (b_size b))"

definition label_part :: "block \<Rightarrow> string" where
  "label_part b = (case persisted_label b of None \<Rightarrow> [] | Some l \<Rightarrow> CHR ''~'' # encodeURIComponent l)"

section \<open>Properties of the transforms, the painter and the validation\<close>


lemma set_row_cells: "set (row_cells x m y) = {(x', y'). y' = y \<and> x \<le> x' \<and> x' \<le> m}"
proof (induction x m y rule: row_cells.induct)
  case (1 x m y)
  show ?case
  proof (cases "x \<le> m")
    case True
    with 1 show ?thesis by (subst row_cells.simps) auto
  next
    case False
    then show ?thesis by (subst row_cells.simps) auto
  qed
qed

lemma set_grid_cells:
  "set (grid_cells y my a b) = {(x', y'). y \<le> y' \<and> y' \<le> my \<and> a \<le> x' \<and> x' \<le> b}"
proof (induction y my a b rule: grid_cells.induct)
  case (1 y my a b)
  show ?case
  proof (cases "y \<le> my")
    case True
    with 1 show ?thesis by (subst grid_cells.simps) (auto simp: set_row_cells)
  next
    case False
    then show ?thesis by (subst grid_cells.simps) auto
  qed
qed

lemma set_cellsForKindAt:
  "set (cellsForKindAt css w kind cx cy) =
     {(x, y). cx - paint_radius kind \<le> x \<and> x \<le> cx + paint_radius kind \<and>
              cy - paint_radius kind \<le> y \<and> y \<le> cy + paint_radius kind \<and>
              0 \<le> x \<and> x < world_maxX css w \<and> 0 \<le> y \<and> y < world_maxY css w}"
  by (auto simp: cellsForKindAt_def Let_def set_grid_cells)

text \<open>
  Claim C3 (coverage of a kind). For a kind registered with paint radius \<open>R\<close> and every
  centre cell, \<open>cellsForKindAt\<close> returns exactly the cells of the axis-aligned square of
  half-width \<open>R\<close> around the centre that lie inside the world's cell bounds. A kind with
  no registered radius is given radius 0 (\<open>KIND_PAINT_RADIUS[kind] ?? 0\<close>), so the
  result is the centre cell itself when it lies inside the world, not the empty list; the
  callers leave such kinds out beforehand with \<open>PAINTER_KINDS\<close>.
\<close>

theorem cellsForKindAt_square:
  "(KIND_PAINT_RADIUS kind = Some R \<longrightarrow>
      set (cellsForKindAt css w kind cx cy) =
        {(x, y). cx - R \<le> x \<and> x \<le> cx + R \<and> cy - R \<le> y \<and> y \<le> cy + R \<and>
                 0 \<le> x \<and> x < world_maxX css w \<and> 0 \<le> y \<and> y < world_maxY css w}) \<and>
   (KIND_PAINT_RADIUS kind = None \<longrightarrow>
      set (cellsForKindAt css w kind cx cy) =
        {(x, y). x = cx \<and> y = cy \<and>
                 0 \<le> x \<and> x < world_maxX css w \<and> 0 \<le> y \<and> y < world_maxY css w})"
  by (auto simp: set_cellsForKindAt paint_radius_def)

lemma world_1200: "world_maxX ''48'' (setWorldSizeCells ''48'' 1200 1200) = 1200"
  "world_maxY ''48'' (setWorldSizeCells ''48'' 1200 1200) = 1200"
  by code_simp+

theorem cellsForKindAt_square_witness:
  "KIND_PAINT_RADIUS ''flag'' = Some 3 \<and>
   set (cellsForKindAt ''48'' (setWorldSizeCells ''48'' 1200 1200) ''flag'' 1 1) =
     {(x, y). - 2 \<le> x \<and> x \<le> 4 \<and> - 2 \<le> y \<and> y \<le> 4 \<and>
              0 \<le> x \<and> x < 1200 \<and> 0 \<le> y \<and> y < 1200} \<and>
   KIND_PAINT_RADIUS ''trap'' = None \<and>
   set (cellsForKindAt ''48'' (setWorldSizeCells ''48'' 1200 1200) ''trap'' 5 5) =
     {(x, y). x = 5 \<and> y = 5 \<and> 0 \<le> x \<and> x < 1200 \<and> 0 \<le> y \<and> y < 1200}"
proof -
  have f: "KIND_PAINT_RADIUS ''flag'' = Some 3" and t: "KIND_PAINT_RADIUS ''trap'' = None"
    by (simp_all add: KIND_PAINT_RADIUS_def)
  show ?thesis
    using cellsForKindAt_square [of "''flag''" 3 "''48''" "setWorldSizeCells ''48'' 1200 1200" 1 1]
      cellsForKindAt_square [of "''trap''" 0 "''48''" "setWorldSizeCells ''48'' 1200 1200" 5 5] f t
    by (simp add: world_1200)
qed

text \<open>
  The part of claim C3 about kinds with no registered radius, as it was stated (the empty
  set), fails: a trap centred on cell \<open>(5, 5)\<close> yields that one cell.
\<close>

theorem cellsForKindAt_unregistered_counterexample:
  "KIND_PAINT_RADIUS ''trap'' = None \<and>
   cellsForKindAt ''48'' (setWorldSizeCells ''48'' 1200 1200) ''trap'' 5 5 = [(5, 5)]"
  by code_simp

lemma areaBoundingBox_eq:
  "areaBoundingBox css w kind cx cy =
     \<lparr>minx = max 0 (cx - paint_radius kind), miny = max 0 (cy - paint_radius kind),
      maxx = min (world_maxX css w - 1) (cx + paint_radius kind),
      maxy = min (world_maxY css w - 1) (cy + paint_radius kind)\<rparr>"
  by (simp add: areaBoundingBox_def Let_def)

text \<open>
  Claim C4 (bounding box). For a kind registered with radius \<open>R\<close> and centre
  \<open>(cx, cy)\<close>, \<open>areaBoundingBox\<close> returns the corners of the radius-\<open>R\<close> square
  clipped to the world's cell bounds: \<open>min = (max 0 (cx - R), max 0 (cy - R))\<close> and
  \<open>max = (min (maxX - 1) (cx + R), min (maxY - 1) (cy + R))\<close>. They are the corners
  of the full square exactly when the square lies inside the world.
\<close>

theorem areaBoundingBox_clipped:
  assumes "KIND_PAINT_RADIUS kind = Some R"
  shows "areaBoundingBox css w kind cx cy =
           \<lparr>minx = max 0 (cx - R), miny = max 0 (cy - R),
            maxx = min (world_maxX css w - 1) (cx + R),
            maxy = min (world_maxY css w - 1) (cy + R)\<rparr> \<and>
         (areaBoundingBox css w kind cx cy =
            \<lparr>minx = cx - R, miny = cy - R, maxx = cx + R, maxy = cy + R\<rparr>
          \<longleftrightarrow> 0 \<le> cx - R \<and> 0 \<le> cy - R \<and>
              cx + R \<le> world_maxX css w - 1 \<and> cy + R \<le> world_maxY css w - 1)"
  using assms by (auto simp: areaBoundingBox_eq paint_radius_def)

theorem areaBoundingBox_clipped_witness:
  "KIND_PAINT_RADIUS ''flag'' = Some 3 \<and>
   areaBoundingBox ''48'' (setWorldSizeCells ''48'' 1200 1200) ''flag'' 0 0 =
     \<lparr>minx = 0, miny = 0, maxx = 3, maxy = 3\<rparr>"
proof -
  have f: "KIND_PAINT_RADIUS ''flag'' = Some 3"
    by (simp add: KIND_PAINT_RADIUS_def)
  show ?thesis
    using areaBoundingBox_clipped [OF f, of "''48''" "setWorldSizeCells ''48'' 1200 1200" 0 0] f
    by (simp add: world_1200)
qed

text \<open>
  Claim C4 as it was stated (the corners of the full square, whatever is clipped) fails at
  the world's edge: a flag centred on cell \<open>(0, 0)\<close> has the box \<open>(0, 0)\<close> to
  \<open>(3, 3)\<close>, not \<open>(-3, -3)\<close> to \<open>(3, 3)\<close>.
\<close>

theorem areaBoundingBox_full_square_counterexample:
  "KIND_PAINT_RADIUS ''flag'' = Some 3 \<and>
   areaBoundingBox ''48'' (setWorldSizeCells ''48'' 1200 1200) ''flag'' 0 0 \<noteq>
     \<lparr>minx = 0 - 3, miny = 0 - 3, maxx = 0 + 3, maxy = 0 + 3\<rparr>"
  by (simp add: areaBoundingBox_eq paint_radius_def KIND_PAINT_RADIUS_def)

lemma row_unpainted_iff:
  "row_unpainted P x e y \<longleftrightarrow> (\<exists>x'. x \<le> x' \<and> x' < e \<and> keyOf x' y \<notin> P)"
proof (induction P x e y rule: row_unpainted.induct)
  case (1 P x e y)
  show ?case
  proof (cases "x < e \<and> keyOf x y \<in> P")
    case True
    then have "row_unpainted P x e y = row_unpainted P (x + 1) e y"
      by (subst row_unpainted.simps) simp
    also have "\<dots> \<longleftrightarrow> (\<exists>x'. x + 1 \<le> x' \<and> x' < e \<and> keyOf x' y \<notin> P)"
      using 1 True by simp
    also have "\<dots> \<longleftrightarrow> (\<exists>x'. x \<le> x' \<and> x' < e \<and> keyOf x' y \<notin> P)"
    proof
      assume "\<exists>x'. x + 1 \<le> x' \<and> x' < e \<and> keyOf x' y \<notin> P"
      then obtain x' where h: "x + 1 \<le> x'" "x' < e" "keyOf x' y \<notin> P" by blast
      then have "x \<le> x'" by simp
      with h show "\<exists>x'. x \<le> x' \<and> x' < e \<and> keyOf x' y \<notin> P" by blast
    next
      assume "\<exists>x'. x \<le> x' \<and> x' < e \<and> keyOf x' y \<notin> P"
      then obtain x' where h: "x \<le> x'" "x' < e" "keyOf x' y \<notin> P" by blast
      with True have "x' \<noteq> x" by blast
      with h have "x + 1 \<le> x'" by simp
      with h show "\<exists>x'. x + 1 \<le> x' \<and> x' < e \<and> keyOf x' y \<notin> P" by blast
    qed
    finally show ?thesis .
  next
    case False
    then show ?thesis by (subst row_unpainted.simps) force
  qed
qed

lemma rows_unpainted_iff:
  "rows_unpainted P y ye cx xe \<longleftrightarrow>
     (\<exists>x' y'. cx \<le> x' \<and> x' < xe \<and> y \<le> y' \<and> y' < ye \<and> keyOf x' y' \<notin> P)"
proof (induction P y ye cx xe rule: rows_unpainted.induct)
  case (1 P y ye cx xe)
  show ?case
  proof (cases "y < ye \<and> \<not> row_unpainted P cx xe y")
    case True
    then have "rows_unpainted P y ye cx xe = rows_unpainted P (y + 1) ye cx xe"
      by (subst rows_unpainted.simps) simp
    also have "\<dots> \<longleftrightarrow>
        (\<exists>x' y'. cx \<le> x' \<and> x' < xe \<and> y + 1 \<le> y' \<and> y' < ye \<and> keyOf x' y' \<notin> P)"
      using 1 True by simp
    also have "\<dots> \<longleftrightarrow>
        (\<exists>x' y'. cx \<le> x' \<and> x' < xe \<and> y \<le> y' \<and> y' < ye \<and> keyOf x' y' \<notin> P)"
    proof
      assume "\<exists>x' y'. cx \<le> x' \<and> x' < xe \<and> y + 1 \<le> y' \<and> y' < ye \<and> keyOf x' y' \<notin> P"
      then obtain x' y' where h: "cx \<le> x'" "x' < xe" "y + 1 \<le> y'" "y' < ye" "keyOf x' y' \<notin> P"
        by blast
      then have "y \<le> y'" by simp
      with h show "\<exists>x' y'. cx \<le> x' \<and> x' < xe \<and> y \<le> y' \<and> y' < ye \<and> keyOf x' y' \<notin> P"
        by blast
    next
      assume "\<exists>x' y'. cx \<le> x' \<and> x' < xe \<and> y \<le> y' \<and> y' < ye \<and> keyOf x' y' \<notin> P"
      then obtain x' y' where h: "cx \<le> x'" "x' < xe" "y \<le> y'" "y' < ye" "keyOf x' y' \<notin> P"
        by blast
      with True have "y' \<noteq> y" by (auto simp: row_unpainted_iff)
      with h have "y + 1 \<le> y'" by simp
      with h show "\<exists>x' y'. cx \<le> x' \<and> x' < xe \<and> y + 1 \<le> y' \<and> y' < ye \<and> keyOf x' y' \<notin> P"
        by blast
    qed
    finally show ?thesis .
  next
    case False
    then show ?thesis
      by (subst rows_unpainted.simps) (force simp: row_unpainted_iff)
  qed
qed

lemma block_invalid_iff:
  "block_invalid css P b \<longleftrightarrow>
     (b_kind b = ''city'' \<or> b_kind b = ''trap'') \<and>
     (\<exists>x y. fst (posToCell css (b_left b) (b_top b)) \<le> x \<and>
            x < fst (posToCell css (b_left b) (b_top b)) + b_size b \<and>
            snd (posToCell css (b_left b) (b_top b)) \<le> y \<and>
            y < snd (posToCell css (b_left b) (b_top b)) + b_size b \<and>
            keyOf x y \<notin> P)"
  by (auto simp: block_invalid_def Let_def rows_unpainted_iff split: prod.splits)

text \<open>
  Claim C5 (placement validation). \<open>validateAllObjects\<close> marks a block invalid if and
  only if its kind requires validation (city or trap) and at least one cell of its full
  footprint, \<open>b_size\<close> by \<open>b_size\<close> cells from its cell origin, is absent from the
  painted set; blocks of every other kind are marked valid. In particular a trap of size 2
  at cell \<open>(0, 0)\<close> with only \<open>(0, 0)\<close> painted is marked invalid.
\<close>

theorem validateAllObjects_full_footprint:
  "validateAllObjects css P bs =
     map (\<lambda>b. (b, (b_kind b = ''city'' \<or> b_kind b = ''trap'') \<and>
                  (\<exists>x y. fst (posToCell css (b_left b) (b_top b)) \<le> x \<and>
                         x < fst (posToCell css (b_left b) (b_top b)) + b_size b \<and>
                         snd (posToCell css (b_left b) (b_top b)) \<le> y \<and>
                         y < snd (posToCell css (b_left b) (b_top b)) + b_size b \<and>
                         keyOf x y \<notin> P))) bs \<and>
   validateAllObjects ''48'' {''0,0''}
     [\<lparr>b_kind = ''trap'', b_size = 2, b_left = 0, b_top = 0, b_width = None, b_height = None,
       b_immutable = False, b_labelText = ''Trap'', b_customLabel = False\<rparr>] =
     [(\<lparr>b_kind = ''trap'', b_size = 2, b_left = 0, b_top = 0, b_width = None, b_height = None,
        b_immutable = False, b_labelText = ''Trap'', b_customLabel = False\<rparr>, True)]"
proof
  show "validateAllObjects css P bs =
     map (\<lambda>b. (b, (b_kind b = ''city'' \<or> b_kind b = ''trap'') \<and>
                  (\<exists>x y. fst (posToCell css (b_left b) (b_top b)) \<le> x \<and>
                         x < fst (posToCell css (b_left b) (b_top b)) + b_size b \<and>
                         snd (posToCell css (b_left b) (b_top b)) \<le> y \<and>
                         y < snd (posToCell css (b_left b) (b_top b)) + b_size b \<and>
                         keyOf x y \<notin> P))) bs"
    unfolding validateAllObjects_def by (simp only: block_invalid_iff)
next
  show "validateAllObjects ''48'' {''0,0''}
     [\<lparr>b_kind = ''trap'', b_size = 2, b_left = 0, b_top = 0, b_width = None, b_height = None,
       b_immutable = False, b_labelText = ''Trap'', b_customLabel = False\<rparr>] =
     [(\<lparr>b_kind = ''trap'', b_size = 2, b_left = 0, b_top = 0, b_width = None, b_height = None,
        b_immutable = False, b_labelText = ''Trap'', b_customLabel = False\<rparr>, True)]"
    by code_simp
qed

text \<open>
  Claim C9 (validation is monotone in the painted set). For every block and painted set,
  adding a cell never turns a valid block invalid, and removing a cell never turns an
  invalid block valid.
\<close>

theorem validity_monotone:
  "(\<not> block_invalid css P b \<longrightarrow> \<not> block_invalid css (insert k P) b) \<and>
   (block_invalid css P b \<longrightarrow> block_invalid css (P - {k}) b)"
  by (auto simp: block_invalid_iff)

theorem validity_monotone_witness:
  "\<not> block_invalid ''48'' {''0,0''}
       \<lparr>b_kind = ''trap'', b_size = 1, b_left = 0, b_top = 0, b_width = None, b_height = None,
        b_immutable = False, b_labelText = ''Trap'', b_customLabel = False\<rparr> \<and>
   \<not> block_invalid ''48'' (insert ''5,5'' {''0,0''})
       \<lparr>b_kind = ''trap'', b_size = 1, b_left = 0, b_top = 0, b_width = None, b_height = None,
        b_immutable = False, b_labelText = ''Trap'', b_customLabel = False\<rparr> \<and>
   block_invalid ''48'' {''1,1''}
       \<lparr>b_kind = ''trap'', b_size = 1, b_left = 0, b_top = 0, b_width = None, b_height = None,
        b_immutable = False, b_labelText = ''Trap'', b_customLabel = False\<rparr> \<and>
   block_invalid ''48'' ({''1,1''} - {''1,1''})
       \<lparr>b_kind = ''trap'', b_size = 1, b_left = 0, b_top = 0, b_width = None, b_height = None,
        b_immutable = False, b_labelText = ''Trap'', b_customLabel = False\<rparr>"
proof -
  let ?b = "\<lparr>b_kind = ''trap'', b_size = 1, b_left = 0, b_top = 0, b_width = None,
             b_height = None, b_immutable = False, b_labelText = ''Trap'',
             b_customLabel = False\<rparr>"
  have v: "\<not> block_invalid ''48'' {''0,0''} ?b" by code_simp
  have i: "block_invalid ''48'' {''1,1''} ?b" by code_simp
  show ?thesis
    using validity_monotone [of "''48''" "{''0,0''}" ?b "''5,5''"]
      validity_monotone [of "''48''" "{''1,1''}" ?b "''1,1''"] v i
    by blast
qed





section \<open>Properties of the history\<close>

lemma js_slice_take: "0 \<le> e \<Longrightarrow> js_slice xs 0 e = take (nat e) xs"
  by (simp add: js_slice_def Let_def min_def)

lemma js_splice0_drop: "0 \<le> d \<Longrightarrow> js_splice0 xs d = drop (nat d) xs"
  by (simp add: js_splice0_def min_def max_def)

lemma saveCheckpoint_stack:
  assumes "0 \<le> index h" "index h < int (length (stack h))"
    and "js_index (stack h) (index h) \<noteq> Some qs"
  shows "stack (saveCheckpoint qs h) =
           drop (nat (index h + 2 - HISTORY_LIMIT)) (take (nat (index h + 1)) (stack h) @ [qs])"
    and "index (saveCheckpoint qs h) = int (length (stack (saveCheckpoint qs h))) - 1"
proof -
  have l: "int (length (take (nat (index h + 1)) (stack h) @ [qs])) = index h + 2"
    using assms by simp
  have ne: "Some qs \<noteq> js_index (stack h) (index h)"
    using assms(3) by metis
  show "stack (saveCheckpoint qs h) =
           drop (nat (index h + 2 - HISTORY_LIMIT)) (take (nat (index h + 1)) (stack h) @ [qs])"
    using assms(1) ne l
    by (simp add: saveCheckpoint_def Let_def js_slice_take js_splice0_drop del: length_append)
  show "index (saveCheckpoint qs h) = int (length (stack (saveCheckpoint qs h))) - 1"
    using ne by (simp add: saveCheckpoint_def Let_def)
qed

lemma saveCheckpoint_same:
  "js_index (stack h) (index h) = Some qs \<Longrightarrow> saveCheckpoint qs h = h"
  by (simp add: saveCheckpoint_def)

lemma saveCheckpoint_inv: "history_inv h \<Longrightarrow> history_inv (saveCheckpoint qs h)"
proof (cases "js_index (stack h) (index h) = Some qs")
  case True
  assume "history_inv h"
  with True show ?thesis by (simp add: saveCheckpoint_same)
next
  case False
  assume i: "history_inv h"
  then have a: "0 \<le> index h" "index h < int (length (stack h))"
    by (simp_all add: history_inv_def)
  have s: "stack (saveCheckpoint qs h) =
      drop (nat (index h + 2 - HISTORY_LIMIT)) (take (nat (index h + 1)) (stack h) @ [qs])"
    and x: "index (saveCheckpoint qs h) = int (length (stack (saveCheckpoint qs h))) - 1"
    using saveCheckpoint_stack [OF a False] by blast+
  have len: "int (length (stack (saveCheckpoint qs h))) =
      index h + 2 - max 0 (index h + 2 - HISTORY_LIMIT)"
    unfolding s using a by (simp add: HISTORY_LIMIT_def)
  from i have "index h + 1 \<le> HISTORY_LIMIT"
    by (simp add: history_inv_def)
  with len a have "0 < int (length (stack (saveCheckpoint qs h)))"
    "int (length (stack (saveCheckpoint qs h))) \<le> HISTORY_LIMIT"
    by (simp_all add: HISTORY_LIMIT_def max_def)
  with x show ?thesis
    by (simp add: history_inv_def)
qed

lemma undo_inv: "history_inv h \<Longrightarrow> history_inv (fst (undo h))"
  by (simp add: undo_def canUndo_def history_inv_def Let_def)

lemma redo_inv: "history_inv h \<Longrightarrow> history_inv (fst (redo h))"
  by (simp add: redo_def canRedo_def history_inv_def Let_def)

lemma do_call_inv: "history_inv h \<Longrightarrow> history_inv (fst (do_call h c))"
  by (cases c) (simp_all add: saveCheckpoint_inv undo_inv redo_inv)

lemma run_calls_inv: "history_inv h \<Longrightarrow> history_inv (run_calls h cs)"
  by (induction cs arbitrary: h) (simp_all add: do_call_inv)

lemma init_inv: "history_inv (initHistoryWithCurrent qs)"
  by (simp add: history_inv_def initHistoryWithCurrent_def HISTORY_LIMIT_def)

lemma js_index_mem: "0 \<le> i \<Longrightarrow> i < int (length xs) \<Longrightarrow> \<exists>s. js_index xs i = Some s \<and> s \<in> set xs"
  by (simp add: js_index_def)

lemma undo_applies:
  "history_inv h \<Longrightarrow> snd (undo h) \<in> insert Skipped ((\<lambda>s. Applied (Some s)) ` set (stack h))"
  using js_index_mem [of "index h - 1" "stack h"]
  by (auto simp: undo_def canUndo_def history_inv_def Let_def)

lemma redo_applies:
  "history_inv h \<Longrightarrow> snd (redo h) \<in> insert Skipped ((\<lambda>s. Applied (Some s)) ` set (stack h))"
  using js_index_mem [of "index h + 1" "stack h"]
  by (auto simp: redo_def canRedo_def history_inv_def Let_def)

text \<open>
  Claim C10 (invariant of the history). After \<open>initHistoryWithCurrent\<close>, every sequence
  of \<open>saveCheckpoint\<close>, \<open>undo\<close> and \<open>redo\<close> calls leaves the stack non-empty and
  of length at most 100, with \<open>0 \<le> index \<le> length - 1\<close>; so a further \<open>undo\<close> or
  \<open>redo\<close> either does nothing or re-applies a snapshot that is in the stack.
\<close>

theorem history_invariant:
  "stack (run_calls (initHistoryWithCurrent qs) cs) \<noteq> [] \<and>
   int (length (stack (run_calls (initHistoryWithCurrent qs) cs))) \<le> HISTORY_LIMIT \<and>
   0 \<le> index (run_calls (initHistoryWithCurrent qs) cs) \<and>
   index (run_calls (initHistoryWithCurrent qs) cs)
     \<le> int (length (stack (run_calls (initHistoryWithCurrent qs) cs))) - 1 \<and>
   snd (undo (run_calls (initHistoryWithCurrent qs) cs))
     \<in> insert Skipped
         ((\<lambda>s. Applied (Some s)) ` set (stack (run_calls (initHistoryWithCurrent qs) cs))) \<and>
   snd (redo (run_calls (initHistoryWithCurrent qs) cs))
     \<in> insert Skipped
         ((\<lambda>s. Applied (Some s)) ` set (stack (run_calls (initHistoryWithCurrent qs) cs)))"
proof -
  have i: "history_inv (run_calls (initHistoryWithCurrent qs) cs)"
    by (rule run_calls_inv [OF init_inv])
  show ?thesis
    using i undo_applies [OF i] redo_applies [OF i]
    by (simp add: history_inv_def)
qed

lemma run_calls_append: "run_calls h (cs @ ds) = run_calls (run_calls h cs) ds"
  by (induction cs arbitrary: h) simp_all

lemma drop_window_snoc:
  assumes "length xs = k + 100"
  shows "drop (length (drop k xs) + 1 - 100) (drop k xs @ [q])
         = drop (length (xs @ [q]) - 100) (xs @ [q])"
proof -
  have "drop (length (drop k xs) + 1 - 100) (drop k xs @ [q]) = drop 1 (drop k xs @ [q])"
    using assms by simp
  also have "\<dots> = drop (k + 1) xs @ [q]"
    using assms by simp
  also have "\<dots> = drop (length (xs @ [q]) - 100) (xs @ [q])"
    using assms by simp
  finally show ?thesis .
qed

lemma checkpoints_stack:
  "distinct (s0 # ss) \<Longrightarrow>
   stack (run_calls (initHistoryWithCurrent s0) (map SaveCheckpoint ss))
     = drop (length (s0 # ss) - 100) (s0 # ss) \<and>
   index (run_calls (initHistoryWithCurrent s0) (map SaveCheckpoint ss))
     = int (length (stack (run_calls (initHistoryWithCurrent s0) (map SaveCheckpoint ss)))) - 1"
proof (induction ss rule: rev_induct)
  case Nil
  then show ?case by (simp add: initHistoryWithCurrent_def)
next
  case (snoc q ss)
  let ?h = "run_calls (initHistoryWithCurrent s0) (map SaveCheckpoint ss)"
  let ?all = "s0 # ss"
  from snoc.prems have d: "distinct ?all" and q: "q \<notin> set ?all"
    by auto
  from snoc.IH [OF d] have st: "stack ?h = drop (length ?all - 100) ?all"
    and ix: "index ?h = int (length (stack ?h)) - 1"
    by blast+
  have ne: "stack ?h \<noteq> []"
    unfolding st by simp
  then have a: "0 \<le> index ?h" "index ?h < int (length (stack ?h))"
    using ix by (simp_all add: Suc_le_eq)
  have "js_index (stack ?h) (index ?h) \<noteq> Some q"
  proof
    assume "js_index (stack ?h) (index ?h) = Some q"
    with a have "q \<in> set (stack ?h)"
      by (auto simp: js_index_def)
    then have "q \<in> set ?all"
      unfolding st by (rule in_set_dropD)
    with q show False by blast
  qed
  from saveCheckpoint_stack [OF a this]
  have s': "stack (saveCheckpoint q ?h) =
      drop (nat (index ?h + 2 - HISTORY_LIMIT)) (take (nat (index ?h + 1)) (stack ?h) @ [q])"
    and x': "index (saveCheckpoint q ?h) = int (length (stack (saveCheckpoint q ?h))) - 1"
    by blast+
  have t: "take (nat (index ?h + 1)) (stack ?h) = stack ?h"
    using ix by simp
  have r: "run_calls (initHistoryWithCurrent s0) (map SaveCheckpoint (ss @ [q])) = saveCheckpoint q ?h"
    by (simp add: run_calls_append)
  have len: "length (stack ?h) = length ?all - (length ?all - 100)"
    unfolding st by simp
  have "stack (saveCheckpoint q ?h) = drop (length (stack ?h) + 1 - 100) (stack ?h @ [q])"
    unfolding s' t using ix ne
    by (simp add: HISTORY_LIMIT_def nat_diff_distrib' del: drop_append)
  also have "\<dots> = drop (length (?all @ [q]) - 100) (?all @ [q])"
  proof (cases "length ?all < 100")
    case True
    then show ?thesis unfolding st by simp
  next
    case False
    define k where "k = length ?all - 100"
    from False have k: "length ?all = k + 100"
      by (simp add: k_def)
    show ?thesis
      unfolding st k_def [symmetric] by (rule drop_window_snoc [OF k])
  qed
  finally show ?case
    using x' unfolding r by simp
qed

lemma undo_iter:
  "0 \<le> index h \<Longrightarrow>
   ((\<lambda>g. fst (undo g)) ^^ n) h = h\<lparr>index := max 0 (index h - int n)\<rparr>"
proof (induction n)
  case 0
  then show ?case by simp
next
  case (Suc n)
  then show ?case
    by (auto simp: undo_def canUndo_def Let_def max_def)
qed

text \<open>
  Claim C6 (bound of the history). The stack never holds more than 100 snapshots; a
  checkpoint beyond the bound drops the oldest entries from the head. After initialising
  and checkpointing 105 distinct states, the stack has length 100 and holds the checkpointed
  states 6 to 105 (the initial state and states 1 to 5 are evicted), the index is 99, and
  99 calls of \<open>undo\<close> reach index 0, the last of them re-applying the 6th checkpointed
  state, not state 1.
\<close>

theorem history_bound_105:
  assumes "length ss = 105" and "distinct (s0 # ss)"
  shows "int (length (stack (run_calls (initHistoryWithCurrent qs) cs))) \<le> HISTORY_LIMIT \<and>
         HISTORY_LIMIT = 100 \<and>
         length (stack (run_calls (initHistoryWithCurrent s0) (map SaveCheckpoint ss))) = 100 \<and>
         stack (run_calls (initHistoryWithCurrent s0) (map SaveCheckpoint ss)) = drop 5 ss \<and>
         index (run_calls (initHistoryWithCurrent s0) (map SaveCheckpoint ss)) = 99 \<and>
         undo (((\<lambda>g. fst (undo g)) ^^ 98)
                 (run_calls (initHistoryWithCurrent s0) (map SaveCheckpoint ss)))
           = (\<lparr>stack = drop 5 ss, index = 0\<rparr>, Applied (Some (ss ! 5))) \<and>
         ((\<lambda>g. fst (undo g)) ^^ 99)
             (run_calls (initHistoryWithCurrent s0) (map SaveCheckpoint ss))
           = \<lparr>stack = drop 5 ss, index = 0\<rparr> \<and>
         ss ! 5 \<noteq> s0 \<and> ss ! 5 \<noteq> ss ! 0"
proof -
  let ?h = "run_calls (initHistoryWithCurrent s0) (map SaveCheckpoint ss)"
  have b: "int (length (stack (run_calls (initHistoryWithCurrent qs) cs))) \<le> HISTORY_LIMIT"
    using run_calls_inv [OF init_inv, of qs cs] by (simp add: history_inv_def)
  from checkpoints_stack [OF assms(2)] assms(1)
  have st: "stack ?h = drop 5 ss" and ix: "index ?h = 99"
    by simp_all
  have h: "?h = \<lparr>stack = drop 5 ss, index = 99\<rparr>"
    using st ix by (cases ?h) simp
  have len: "length (stack ?h) = 100"
    unfolding st using assms(1) by simp
  have i98: "((\<lambda>g. fst (undo g)) ^^ 98) ?h = \<lparr>stack = drop 5 ss, index = 1\<rparr>"
    using undo_iter [of ?h 98] unfolding h by simp
  have i99: "((\<lambda>g. fst (undo g)) ^^ 99) ?h = \<lparr>stack = drop 5 ss, index = 0\<rparr>"
    using undo_iter [of ?h 99] unfolding h by simp
  have u: "undo \<lparr>stack = drop 5 ss, index = 1\<rparr>
      = (\<lparr>stack = drop 5 ss, index = 0\<rparr>, Applied (Some (ss ! 5)))"
    using assms(1) by (simp add: undo_def canUndo_def Let_def js_index_def)
  have "ss ! 5 \<in> set ss"
    using assms(1) by simp
  with assms(2) have n0: "ss ! 5 \<noteq> s0"
    by auto
  have n1: "ss ! 5 \<noteq> ss ! 0"
    using assms by (simp add: nth_eq_iff_index_eq)
  show ?thesis
    using b len st ix i99 n0 n1 unfolding i98 u
    by (simp add: HISTORY_LIMIT_def)
qed

theorem history_bound_105_witness:
  "length (map (\<lambda>i. js_String (int i)) [1..<106]) = 105 \<and>
   distinct (''0'' # map (\<lambda>i. js_String (int i)) [1..<106]) \<and>
   length (stack (run_calls (initHistoryWithCurrent ''0'')
     (map SaveCheckpoint (map (\<lambda>i. js_String (int i)) [1..<106])))) = 100 \<and>
   snd (undo (((\<lambda>g. fst (undo g)) ^^ 98) (run_calls (initHistoryWithCurrent ''0'')
     (map SaveCheckpoint (map (\<lambda>i. js_String (int i)) [1..<106]))))) = Applied (Some ''6'')"
proof -
  define ss where "ss = map (\<lambda>i. js_String (int i)) [1..<106]"
  have l: "length ss = 105"
    by (simp add: ss_def)
  have d: "distinct (''0'' # ss)"
    unfolding ss_def by code_simp
  have n: "ss ! 5 = ''6''"
    unfolding ss_def by code_simp
  from history_bound_105 [OF l d, of "''0''" "[]"]
  have a: "length (stack (run_calls (initHistoryWithCurrent ''0'') (map SaveCheckpoint ss))) = 100"
    and b: "undo (((\<lambda>g. fst (undo g)) ^^ 98)
                 (run_calls (initHistoryWithCurrent ''0'') (map SaveCheckpoint ss)))
           = (\<lparr>stack = drop 5 ss, index = 0\<rparr>, Applied (Some (ss ! 5)))"
    by blast+
  show ?thesis
    unfolding ss_def [symmetric] using l d a n by (simp add: b)
qed

section \<open>Properties of the codec\<close>

subsection \<open>Splitting, joining and searching\<close>

lemma js_split_notin: "c \<notin> set s \<Longrightarrow> js_split c s = [s]"
  by (induction s) auto

lemma js_split_append: "c \<notin> set a \<Longrightarrow> js_split c (a @ c # b) = a # js_split c b"
  by (induction a) auto

lemma js_split_join:
  "xs \<noteq> [] \<Longrightarrow> \<forall>x\<in>set xs. c \<notin> set x \<Longrightarrow> js_split c (js_join [c] xs) = xs"
proof (induction "[c]" xs rule: js_join.induct)
  case 1
  then show ?case by simp
next
  case (2 x)
  then show ?case by (simp add: js_split_notin)
next
  case (3 x y ys)
  then show ?case by (simp add: js_split_append)
qed

lemma js_indexOf_notin: "c \<notin> set s \<Longrightarrow> js_indexOf c s = - 1"
  by (induction s) (auto simp: Let_def)

lemma js_indexOf_append: "c \<notin> set a \<Longrightarrow> js_indexOf c (a @ c # b) = int (length a)"
  by (induction a) (auto simp: Let_def)

lemma js_slice_prefix: "js_slice (a @ b) 0 (int (length a)) = a"
  by (simp add: js_slice_def Let_def)

lemma js_slice_from_suffix: "js_slice_from (a @ c # b) (int (length a) + 1) = b"
  by (simp add: js_slice_from_def js_slice_def Let_def nat_add_distrib)

subsection \<open>Digits\<close>

lemma all_below_36: "(\<forall>d<36. P d) \<longleftrightarrow> list_all P [0..<36]"
  by (auto simp: list_all_iff)

lemma digit_val_digit_char: "d < 36 \<Longrightarrow> digit_val (digit_char d) = Some d"
proof -
  have "\<forall>d<36. digit_val (digit_char d) = Some d"
    unfolding all_below_36 by code_simp
  then show "d < 36 \<Longrightarrow> digit_val (digit_char d) = Some d" by blast
qed

lemma digit_char_class:
  "d < 36 \<Longrightarrow> is_alnum (digit_char d) \<and> digit_char d \<in> set ''0123456789abcdefghijklmnopqrstuvwxyz''"
proof -
  have "\<forall>d<36. is_alnum (digit_char d) \<and> digit_char d \<in> set ''0123456789abcdefghijklmnopqrstuvwxyz''"
    unfolding all_below_36 by code_simp
  then show "d < 36 \<Longrightarrow> is_alnum (digit_char d) \<and> digit_char d \<in> set ''0123456789abcdefghijklmnopqrstuvwxyz''" by blast
qed

lemma digit_char_x: "d < 33 \<Longrightarrow> digit_char d \<noteq> CHR ''x''"
proof -
  have "list_all (\<lambda>d. digit_char d \<noteq> CHR ''x'') [0..<33]"
    by code_simp
  then show "d < 33 \<Longrightarrow> digit_char d \<noteq> CHR ''x''" by (simp add: list_all_iff)
qed

lemma all_below_16: "(\<forall>d<16. P d) \<longleftrightarrow> list_all P [0..<16]"
  by (auto simp: list_all_iff)

lemma digits_value_snoc: "digits_value r acc (ds @ [d]) = digits_value r acc ds * r + d"
  by (induction ds arbitrary: acc) simp_all

lemma radix_digit_digit_char: "d < r \<Longrightarrow> r \<le> 36 \<Longrightarrow> radix_digit r (digit_char d) = Some d"
  by (simp add: radix_digit_def digit_val_digit_char)

lemma radix_digits_parse:
  assumes "2 \<le> r" "r \<le> 36"
  shows "\<exists>ds. ds \<noteq> [] \<and> (\<forall>s. digit_prefix r (radix_digits r n @ s) = ds @ digit_prefix r s) \<and>
              digits_value r 0 ds = n"
  using assms
proof (induction r n rule: radix_digits.induct)
  case (1 r n)
  show ?case
  proof (cases "n < r")
    case True
    then have "radix_digits r n = [digit_char n]"
      by (subst radix_digits.simps) simp
    with True 1(3) have "[n] \<noteq> [] \<and> (\<forall>s. digit_prefix r (radix_digits r n @ s) = [n] @ digit_prefix r s)
        \<and> digits_value r 0 [n] = n"
      by (simp add: radix_digit_digit_char)
    then show ?thesis by blast
  next
    case False
    with 1(2) have e: "radix_digits r n = radix_digits r (n div r) @ [digit_char (n mod r)]"
      by (subst radix_digits.simps) simp
    from False 1(2) have "\<not> (r < 2 \<or> n < r)" by simp
    from 1(1) [OF this 1(2) 1(3)] obtain ds where ds: "ds \<noteq> []"
      "\<And>s. digit_prefix r (radix_digits r (n div r) @ s) = ds @ digit_prefix r s"
      "digits_value r 0 ds = n div r"
      by blast
    have m: "n mod r < r" using 1(2) by simp
    have "\<forall>s. digit_prefix r (radix_digits r n @ s) = (ds @ [n mod r]) @ digit_prefix r s"
      unfolding e using ds(2) m 1(3) by (simp add: radix_digit_digit_char)
    moreover have "digits_value r 0 (ds @ [n mod r]) = n"
      using ds(3) by (simp add: digits_value_snoc)
    ultimately show ?thesis by blast
  qed
qed

lemma set_radix_digits:
  "2 \<le> r \<Longrightarrow> r \<le> 36 \<Longrightarrow> radix_digits r n \<noteq> [] \<and> set (radix_digits r n) \<subseteq> digit_char ` {..<r}"
proof (induction r n rule: radix_digits.induct)
  case (1 r n)
  show ?case
  proof (cases "n < r")
    case True
    then show ?thesis by (subst (1 2) radix_digits.simps) simp
  next
    case False
    with 1 show ?thesis by (subst (1 2) radix_digits.simps) auto
  qed
qed

lemma radix_digits_alnum:
  assumes "2 \<le> r" "r \<le> 36" "c \<in> set (radix_digits r n)"
  shows "is_alnum c"
proof -
  from set_radix_digits [OF assms(1,2)] assms(3) obtain d where "d < r" "c = digit_char d"
    by blast
  with assms(2) show ?thesis using digit_char_class [of d] by simp
qed

lemma alnum_not_ws: "is_alnum c \<Longrightarrow> \<not> is_ws1 c \<and> \<not> is_ws2 c b \<and> \<not> is_ws3 c b d"
  by (auto simp: is_alnum_def is_ws1_def is_ws2_def is_ws3_def Let_def)

lemma strip_ws_alnum: "is_alnum c \<Longrightarrow> strip_ws (c # t) = c # t"
proof (cases t)
  case Nil
  assume "is_alnum c"
  with Nil show ?thesis using alnum_not_ws [of c] by simp
next
  case (Cons b u)
  assume a: "is_alnum c"
  show ?thesis
  proof (cases u)
    case Nil
    with Cons a show ?thesis using alnum_not_ws [of c] by simp
  next
    case (Cons d v)
    with \<open>t = b # u\<close> a show ?thesis using alnum_not_ws [of c] by simp
  qed
qed

lemma alnum_not_sign: "is_alnum c \<Longrightarrow> c \<noteq> CHR ''-'' \<and> c \<noteq> CHR ''+''"
  by (auto simp: is_alnum_def)

lemma parseInt_radix_digits:
  assumes "2 \<le> r" "r \<le> 36"
  shows "parseInt (radix_digits r n) r = Some (int n)"
proof -
  from set_radix_digits [OF assms] obtain c t where ct: "radix_digits r n = c # t"
    by (cases "radix_digits r n") auto
  then have a: "is_alnum c"
    using radix_digits_alnum [OF assms, of c n] by simp
  from radix_digits_parse [OF assms, of n] obtain ds where ds: "ds \<noteq> []"
    "\<And>s. digit_prefix r (radix_digits r n @ s) = ds @ digit_prefix r s"
    "digits_value r 0 ds = n"
    by blast
  from ds(2) [of "[]"] have p: "digit_prefix r (c # t) = ds"
    unfolding ct by simp
  show ?thesis
    unfolding parseInt_def ct strip_ws_alnum [OF a] Let_def
    using alnum_not_sign [OF a] ds(1,3) p by simp
qed

lemma parseInt_toB36: "0 \<le> n \<Longrightarrow> parseInt (toB36 n) 36 = Some n"
  by (simp add: toB36_def num_toString_def parseInt_radix_digits)

lemma parseInt_js_String: "0 \<le> n \<Longrightarrow> parseInt (js_String n) 10 = Some n"
  by (simp add: js_String_def num_toString_def parseInt_radix_digits)

lemma toB36_alnum: "0 \<le> n \<Longrightarrow> c \<in> set (toB36 n) \<Longrightarrow> is_alnum c"
  using radix_digits_alnum [of 36 c "nat n"] by (simp add: toB36_def num_toString_def)

lemma js_String_alnum: "0 \<le> n \<Longrightarrow> c \<in> set (js_String n) \<Longrightarrow> is_alnum c"
  using radix_digits_alnum [of 10 c "nat n"] by (simp add: js_String_def num_toString_def)

lemma toB36_nonempty: "toB36 n \<noteq> []"
  using set_radix_digits [of 36] by (simp add: toB36_def num_toString_def)

lemma toB36_no_x: "0 \<le> n \<Longrightarrow> n < 33 \<Longrightarrow> CHR ''x'' \<notin> set (toB36 n)"
proof -
  assume n: "0 \<le> n" "n < 33"
  then have "nat n < 36" by simp
  then have "radix_digits 36 (nat n) = [digit_char (nat n)]"
    by (subst radix_digits.simps) simp
  moreover from n have "digit_char (nat n) \<noteq> CHR ''x''"
    by (intro digit_char_x) simp
  ultimately show ?thesis
    using n by (auto simp: toB36_def num_toString_def)
qed

subsection \<open>Percent-encoding\<close>

lemma hex_val_hex_upper: "d < 16 \<Longrightarrow> hex_val (hex_upper d) = Some d"
proof -
  have "\<forall>d<16. hex_val (hex_upper d) = Some d"
    unfolding all_below_16 by code_simp
  then show "d < 16 \<Longrightarrow> hex_val (hex_upper d) = Some d" by blast
qed

lemma hex_upper_class: "d < 16 \<Longrightarrow> is_alnum (hex_upper d)"
proof -
  have "\<forall>d<16. is_alnum (hex_upper d)"
    unfolding all_below_16 by code_simp
  then show "d < 16 \<Longrightarrow> is_alnum (hex_upper d)" by blast
qed

lemma of_char_lt_256: "(of_char c :: nat) < 256"
  by (metis of_char_mod_256 mod_less_divisor zero_less_numeral)

lemma read_escape_pct: "read_escape (pct_byte c @ t) = Some (c, t)"
proof -
  have "(of_char c :: nat) div 16 < 16"
    using of_char_lt_256 [of c] by arith
  moreover have "(of_char c :: nat) mod 16 < 16" by simp
  ultimately show ?thesis
    by (simp add: pct_byte_def hex_val_hex_upper)
qed

lemma take_escapes_pct:
  "take_escapes (length cs) (concat (map pct_byte cs) @ r) = Some (cs, r)"
  by (induction cs) (simp_all add: read_escape_pct)

lemma pct_byte_chars: "d \<in> set (pct_byte c) \<Longrightarrow> d = CHR ''%'' \<or> is_alnum d"
proof -
  have "(of_char c :: nat) div 16 < 16"
    using of_char_lt_256 [of c] by arith
  moreover have "(of_char c :: nat) mod 16 < 16" by simp
  ultimately show "d \<in> set (pct_byte c) \<Longrightarrow> d = CHR ''%'' \<or> is_alnum d"
    by (auto simp: pct_byte_def hex_upper_class)
qed

lemma unreserved_ascii: "uri_unreserved c \<Longrightarrow> leading_ones c = 0 \<and> c \<noteq> CHR ''%''"
  by (auto simp: uri_unreserved_def is_alnum_def leading_ones_def Let_def)

lemma cont_not_unreserved: "is_cont c \<Longrightarrow> \<not> uri_unreserved c"
  by (auto simp: uri_unreserved_def is_alnum_def is_cont_def Let_def)

lemma lead_not_unreserved: "194 \<le> (of_char b :: nat) \<Longrightarrow> \<not> uri_unreserved b"
  by (auto simp: uri_unreserved_def is_alnum_def Let_def)

lemma valid_utf8_char_cases:
  assumes "valid_utf8_char (b # cs)"
  shows "194 \<le> (of_char b :: nat) \<and> (\<forall>c\<in>set cs. is_cont c) \<and> 1 \<le> length cs \<and> length cs \<le> 3"
proof (cases cs)
  case Nil
  with assms show ?thesis by simp
next
  case c1: (Cons c1 r1)
  show ?thesis
  proof (cases r1)
    case Nil
    with assms c1 show ?thesis by simp
  next
    case c2: (Cons c2 r2)
    show ?thesis
    proof (cases r2)
      case Nil
      with assms c1 c2 show ?thesis by (simp add: Let_def)
    next
      case c3: (Cons c3 r3)
      show ?thesis
      proof (cases r3)
        case Nil
        with assms c1 c2 c3 show ?thesis by (simp add: Let_def)
      next
        case (Cons c4 r4)
        with assms c1 c2 c3 show ?thesis by simp
      qed
    qed
  qed
qed

lemma valid_utf8_char_tail:
  "valid_utf8_char (b # cs) \<Longrightarrow> \<not> uri_unreserved b \<and> (\<forall>c\<in>set cs. \<not> uri_unreserved c)"
  using valid_utf8_char_cases [of b cs] by (auto simp: lead_not_unreserved cont_not_unreserved)

lemma encodeURIComponent_Cons:
  "encodeURIComponent (c # s) = (if uri_unreserved c then [c] else pct_byte c) @ encodeURIComponent s"
  by (simp add: encodeURIComponent_def)

lemma encodeURIComponent_escaped:
  "\<forall>c\<in>set cs. \<not> uri_unreserved c \<Longrightarrow>
   encodeURIComponent (cs @ s) = concat (map pct_byte cs) @ encodeURIComponent s"
  by (induction cs) (simp_all add: encodeURIComponent_def)

lemma decodeURIComponent_plain:
  "c \<noteq> CHR ''%'' \<Longrightarrow>
   decodeURIComponent (c # t) = (case decodeURIComponent t of Inl e \<Rightarrow> Inl e | Inr r \<Rightarrow> Inr (c # r))"
  by (subst decodeURIComponent.simps) simp

lemma decodeURIComponent_pct_ascii:
  "leading_ones c = 0 \<Longrightarrow>
   decodeURIComponent (pct_byte c @ t) =
     (case decodeURIComponent t of Inl e \<Rightarrow> Inl e | Inr r \<Rightarrow> Inr (c # r))"
proof -
  assume a: "leading_ones c = 0"
  obtain h1 h2 where p: "pct_byte c = [CHR ''%'', h1, h2]"
    by (simp add: pct_byte_def)
  have r: "read_escape (CHR ''%'' # h1 # h2 # t) = Some (c, t)"
    using read_escape_pct [of c t] unfolding p by simp
  have "decodeURIComponent (CHR ''%'' # h1 # h2 # t) =
     (case decodeURIComponent t of Inl e \<Rightarrow> Inl e | Inr r \<Rightarrow> Inr (c # r))"
    by (subst decodeURIComponent.simps) (simp add: r a Let_def del: read_escape.simps)
  then show ?thesis
    unfolding p by simp
qed

lemma decodeURIComponent_pct_multi:
  assumes "valid_utf8_char (b # cs)" "leading_ones b = Suc (length cs)"
  shows "decodeURIComponent (pct_byte b @ concat (map pct_byte cs) @ t) =
     (case decodeURIComponent t of Inl e \<Rightarrow> Inl e | Inr r \<Rightarrow> Inr (b # cs @ r))"
proof -
  obtain h1 h2 where p: "pct_byte b = [CHR ''%'', h1, h2]"
    by (simp add: pct_byte_def)
  have r: "read_escape (CHR ''%'' # h1 # h2 # concat (map pct_byte cs) @ t)
      = Some (b, concat (map pct_byte cs) @ t)"
    using read_escape_pct [of b "concat (map pct_byte cs) @ t"] unfolding p by simp
  have l: "cs \<noteq> []" "length cs \<le> 3"
    using valid_utf8_char_cases [OF assms(1)] by auto
  have "decodeURIComponent (CHR ''%'' # h1 # h2 # concat (map pct_byte cs) @ t) =
     (case decodeURIComponent t of Inl e \<Rightarrow> Inl e | Inr r \<Rightarrow> Inr (b # cs @ r))"
    by (subst decodeURIComponent.simps)
      (use l assms in \<open>simp add: r Let_def take_escapes_pct del: read_escape.simps\<close>)
  then show ?thesis
    unfolding p by simp
qed

lemma decode_encode_URIComponent:
  "utf8_ok s \<Longrightarrow> decodeURIComponent (encodeURIComponent s) = Inr s"
proof (induction s rule: utf8_ok.induct)
  case 1
  then show ?case
    by (simp add: encodeURIComponent_def decodeURIComponent.simps)
next
  case (2 b t)
  show ?case
  proof (cases "leading_ones b = 0")
    case True
    have "utf8_ok (b # t) = utf8_ok t"
      using True by (subst utf8_ok.simps) (simp add: Let_def)
    with 2(3) have ok: "utf8_ok t"
      by simp
    with 2 True have ih: "decodeURIComponent (encodeURIComponent t) = Inr t"
      by simp
    show ?thesis
    proof (cases "uri_unreserved b")
      case u: True
      then have "b \<noteq> CHR ''%''" using unreserved_ascii by blast
      with u ih show ?thesis
        by (simp add: encodeURIComponent_Cons decodeURIComponent_plain)
    next
      case False
      with ih True show ?thesis
        by (simp add: encodeURIComponent_Cons decodeURIComponent_pct_ascii)
    qed
  next
    case False
    define n where "n = leading_ones b"
    have "utf8_ok (b # t) = (\<not> (n = 1 \<or> n > 4) \<and> n - 1 \<le> length t \<and>
        valid_utf8_char (b # take (n - 1) t) \<and> utf8_ok (drop (n - 1) t))"
      using False by (subst utf8_ok.simps) (auto simp: Let_def n_def)
    with 2(3) have c: "\<not> (n = 1 \<or> n > 4)" "n - 1 \<le> length t"
      "valid_utf8_char (b # take (n - 1) t)" "utf8_ok (drop (n - 1) t)"
      by simp_all
    from False c(1) have n0: "n \<noteq> 0" "\<not> (n = 1 \<or> 4 < n)"
      by (simp_all add: n_def)
    from 2(2) [OF n_def n0 c(4)] have ih:
      "decodeURIComponent (encodeURIComponent (drop (n - 1) t)) = Inr (drop (n - 1) t)" .
    define cs where "cs = take (n - 1) t"
    have len: "leading_ones b = Suc (length cs)"
      using c(2) n0 by (simp add: cs_def n_def)
    have split: "b # t = (b # cs) @ drop (n - 1) t"
      by (simp add: cs_def)
    have esc: "\<forall>c\<in>set (b # cs). \<not> uri_unreserved c"
      using valid_utf8_char_tail [of b cs] c(3) by (simp add: cs_def)
    have "encodeURIComponent (b # t) =
        pct_byte b @ concat (map pct_byte cs) @ encodeURIComponent (drop (n - 1) t)"
      unfolding split using encodeURIComponent_escaped [OF esc] by simp
    then show ?thesis
      using decodeURIComponent_pct_multi [of b cs, OF _ len] c(3) ih
      by (simp add: cs_def [symmetric]) (simp add: cs_def)
  qed
qed

subsection \<open>\<open>URLSearchParams\<close>\<close>

lemma utf8_lossy_ascii:
  "\<forall>c\<in>set s. (of_char c :: nat) < 128 \<Longrightarrow> utf8_lossy 0 128 191 [] s = s"
  by (induction s) (simp_all add: utf8_lossy.simps Let_def)

lemma read_escape_plain: "c \<noteq> CHR ''%'' \<Longrightarrow> read_escape (c # t) = None"
  by (cases "c # t" rule: read_escape.cases) auto

lemma percent_decode_plain: "c \<noteq> CHR ''%'' \<Longrightarrow> percent_decode (c # t) = c # percent_decode t"
  by (subst percent_decode.simps) (simp add: read_escape_plain del: read_escape.simps)

lemma percent_decode_pct: "percent_decode (pct_byte c @ t) = c # percent_decode t"
proof -
  obtain h1 h2 where p: "pct_byte c = [CHR ''%'', h1, h2]"
    by (simp add: pct_byte_def)
  have r: "read_escape (CHR ''%'' # h1 # h2 # t) = Some (c, t)"
    using read_escape_pct [of c t] unfolding p by simp
  have "percent_decode (CHR ''%'' # h1 # h2 # t) = c # percent_decode t"
    by (subst percent_decode.simps) (simp add: r del: read_escape.simps)
  then show ?thesis unfolding p by simp
qed

lemma plus_pct_byte:
  "map (\<lambda>c. if c = CHR ''+'' then CHR '' '' else c) (pct_byte c) = pct_byte c"
proof -
  have "\<forall>d\<in>set (pct_byte c). d \<noteq> CHR ''+''"
    using pct_byte_chars [of "CHR ''+''" c] by (auto simp: is_alnum_def)
  then show ?thesis by (simp add: map_idI)
qed

lemma percent_decode_form_encode:
  "percent_decode (map (\<lambda>c. if c = CHR ''+'' then CHR '' '' else c) (form_encode s)) = s"
proof (induction s)
  case Nil
  then show ?case by (simp add: form_encode_def percent_decode.simps)
next
  case (Cons c s)
  have e: "form_encode (c # s) = form_byte c @ form_encode s"
    by (simp add: form_encode_def)
  consider (keep) "is_alnum c \<or> c \<in> set ''*-._''" | (space) "c = CHR '' ''"
    | (esc) "\<not> (is_alnum c \<or> c \<in> set ''*-._'')" "c \<noteq> CHR '' ''"
    by blast
  then show ?case
  proof cases
    case keep
    then have "c \<noteq> CHR ''+''" "c \<noteq> CHR ''%''"
      by (auto simp: is_alnum_def)
    with keep Cons show ?thesis
      unfolding e by (simp add: form_byte_def percent_decode_plain)
  next
    case space
    with Cons show ?thesis
      unfolding e by (simp add: form_byte_def is_alnum_def percent_decode_plain)
  next
    case esc
    with Cons show ?thesis
      unfolding e by (simp add: form_byte_def plus_pct_byte percent_decode_pct)
  qed
qed

lemma form_decode_encode:
  "\<forall>c\<in>set s. (of_char c :: nat) < 128 \<Longrightarrow> form_decode (form_encode s) = s"
  by (simp add: form_decode_def percent_decode_form_encode utf8_lossy_ascii)

lemma form_encode_chars: "d \<in> set (form_encode s) \<Longrightarrow> form_char d"
  using pct_byte_chars
  by (fastforce simp: form_encode_def form_byte_def form_char_def split: if_splits)

lemma form_char_seps:
  "\<not> form_char CHR ''&''" "\<not> form_char CHR ''=''" "\<not> form_char CHR ''?''"
  by (simp_all add: form_char_def is_alnum_def)

lemma usp_pair_encoded:
  assumes "\<forall>c\<in>set n. (of_char c :: nat) < 128" "\<forall>c\<in>set v. (of_char c :: nat) < 128"
  shows "usp_pair (form_encode n @ CHR ''='' # form_encode v) = [(n, v)]"
proof -
  have "CHR ''='' \<notin> set (form_encode n)"
    using form_encode_chars form_char_seps by blast
  then have i: "js_indexOf CHR ''='' (form_encode n @ CHR ''='' # form_encode v)
      = int (length (form_encode n))"
    by (rule js_indexOf_append)
  show ?thesis
    using assms
    by (simp add: usp_pair_def i Let_def js_slice_prefix js_slice_from_suffix form_decode_encode)
qed

lemma usp_parse_toString:
  assumes "ps \<noteq> []"
    and "\<forall>(n, v)\<in>set ps. (\<forall>c\<in>set n. (of_char c :: nat) < 128) \<and> (\<forall>c\<in>set v. (of_char c :: nat) < 128)"
  shows "usp_parse (usp_toString ps) = ps"
proof -
  let ?piece = "\<lambda>(n, v). form_encode n @ CHR ''='' # form_encode v"
  have ts: "usp_toString ps = js_join ''&'' (map ?piece ps)"
    by (simp add: usp_toString_def)
  have noamp: "\<forall>x\<in>set (map ?piece ps). CHR ''&'' \<notin> set x"
    using form_encode_chars form_char_seps by fastforce
  have sp: "js_split CHR ''&'' (js_join ''&'' (map ?piece ps)) = map ?piece ps"
    using js_split_join [of "map ?piece ps" "CHR ''&''"] assms(1) noamp by simp
  obtain n v rest where ps: "ps = (n, v) # rest"
    using assms(1) by (cases ps) auto
  have "usp_toString ps \<noteq> [] \<and> hd (usp_toString ps) \<noteq> CHR ''?''"
  proof (cases "form_encode n")
    case Nil
    then show ?thesis
      unfolding ps usp_toString_def by (cases rest) auto
  next
    case (Cons d ds)
    then have "form_char d"
      using form_encode_chars [of d n] by simp
    then have "d \<noteq> CHR ''?''"
      using form_char_seps by blast
    with Cons show ?thesis
      unfolding ps usp_toString_def by (cases rest) auto
  qed
  then have q: "(case usp_toString ps of [] \<Rightarrow> [] | c # t \<Rightarrow> if c = CHR ''?'' then t else usp_toString ps)
      = usp_toString ps"
    by (cases "usp_toString ps") auto
  have cc: "concat (map usp_pair (map ?piece ps)) = ps"
    using assms(2)
  proof (induction ps)
    case Nil
    then show ?case by simp
  next
    case (Cons p ps)
    then show ?case
      by (cases p) (simp add: usp_pair_encoded)
  qed
  show ?thesis
    unfolding usp_parse_def Let_def q unfolding ts sp by (rule cc)
qed

subsection \<open>Run-length encoding of the paint\<close>

lemma alnum_seps:
  "\<not> is_alnum CHR '',''" "\<not> is_alnum CHR '';''" "\<not> is_alnum CHR '':''" "\<not> is_alnum CHR ''-''"
  "\<not> is_alnum CHR ''@''" "\<not> is_alnum CHR ''~''" "\<not> is_alnum CHR ''%''"
  by (simp_all add: is_alnum_def)

lemma toB36_seps:
  assumes "0 \<le> n" "\<not> is_alnum c"
  shows "c \<notin> set (toB36 n)"
  using toB36_alnum [OF assms(1)] assms(2) by blast

lemma js_String_seps:
  assumes "0 \<le> n" "\<not> is_alnum c"
  shows "c \<notin> set (js_String n)"
  using js_String_alnum [OF assms(1)] assms(2) by blast

lemma split_keyOf:
  "0 \<le> x \<Longrightarrow> js_split CHR '','' (keyOf x y) = [js_String x, js_String y]" if "0 \<le> y"
proof -
  assume x: "0 \<le> x"
  have "js_split CHR '','' (js_String x @ CHR '','' # js_String y)
      = js_String x # js_split CHR '','' (js_String y)"
    by (rule js_split_append) (simp add: js_String_seps [OF x] alnum_seps)
  also have "js_split CHR '','' (js_String y) = [js_String y]"
    by (rule js_split_notin) (simp add: js_String_seps [OF that] alnum_seps)
  finally show ?thesis by (simp add: keyOf_def)
qed

lemma group_byY_step:
  "0 \<le> x \<Longrightarrow> 0 \<le> y \<Longrightarrow> group_byY (keyOf x y # ks) m = group_byY ks (byY_push y x m)"
  by (simp add: split_keyOf destr1_def destr2_def js_index_def parseInt_u_def str_of_undef_def
      parseInt_js_String)

lemma byY_push_fst: "fst ` set (byY_push y x m) = insert y (fst ` set m)"
proof (induction m)
  case Nil
  then show ?case by simp
next
  case (Cons p m)
  obtain y' xs where p: "p = (y', xs)" by (cases p)
  show ?case
  proof (cases "y' = y")
    case True
    then show ?thesis by (simp add: p)
  next
    case False
    with Cons.IH show ?thesis by (simp add: p insert_commute)
  qed
qed

lemma byY_push_ok: "byY_ok m \<Longrightarrow> byY_ok (byY_push y x m)"
proof (induction m)
  case Nil
  then show ?case by (simp add: byY_ok_def)
next
  case (Cons p m)
  obtain y' xs where p: "p = (y', xs)" by (cases p)
  from Cons.prems have ok: "byY_ok m"
    by (auto simp: byY_ok_def)
  show ?case
  proof (cases "y' = y")
    case True
    with Cons.prems p show ?thesis
      by (auto simp: byY_ok_def)
  next
    case False
    have "y' \<notin> fst ` set (byY_push y x m)"
      using Cons.prems False p by (auto simp: byY_push_fst byY_ok_def)
    with Cons.IH [OF ok] Cons.prems False p show ?thesis
      by (auto simp: byY_ok_def)
  qed
qed

lemma byY_cells_Nil: "byY_cells [] = {}"
  by (simp add: byY_cells_def)

lemma byY_cells_Cons: "byY_cells ((y, xs) # m) = (\<lambda>x. (x, y)) ` set xs \<union> byY_cells m"
  by (auto simp: byY_cells_def)

lemma byY_push_cells: "byY_cells (byY_push y x m) = insert (x, y) (byY_cells m)"
proof (induction m)
  case Nil
  then show ?case by (simp add: byY_cells_Nil byY_cells_Cons)
next
  case (Cons p m)
  obtain y' xs where p: "p = (y', xs)" by (cases p)
  show ?case
  proof (cases "y' = y")
    case True
    then show ?thesis by (simp add: p byY_cells_Cons)
  next
    case False
    with Cons.IH show ?thesis by (simp add: p byY_cells_Cons)
  qed
qed

lemma group_byY_cells:
  "\<forall>(x, y)\<in>set cells. 0 \<le> x \<and> 0 \<le> y \<Longrightarrow> byY_ok m \<Longrightarrow>
   byY_ok (group_byY (map (\<lambda>(x, y). keyOf x y) cells) m) \<and>
   byY_cells (group_byY (map (\<lambda>(x, y). keyOf x y) cells) m) = set cells \<union> byY_cells m"
proof (induction cells arbitrary: m)
  case Nil
  then show ?case by simp
next
  case (Cons c cells)
  obtain x y where c: "c = (x, y)" by (cases c)
  with Cons.prems have xy: "0 \<le> x" "0 \<le> y" by auto
  from Cons.prems have rest: "\<forall>(x, y)\<in>set cells. 0 \<le> x \<and> 0 \<le> y" by simp
  from Cons.IH [OF rest byY_push_ok [OF Cons.prems(2)], of y x]
  show ?case
    unfolding c by (simp add: group_byY_step [OF xy] byY_push_cells del: group_byY.simps)
qed

lemma collect_runs_bounds:
  "\<forall>x\<in>set xs. 0 \<le> x \<Longrightarrow> (case cur of None \<Rightarrow> True | Some (s, p) \<Rightarrow> 0 \<le> s \<and> s \<le> p) \<Longrightarrow>
   \<forall>(a, b)\<in>set (collect_runs xs cur). 0 \<le> a \<and> a \<le> b"
  by (induction xs cur rule: collect_runs.induct) auto

lemma collect_runs_cover:
  "(case cur of None \<Rightarrow> True | Some (s, p) \<Rightarrow> s \<le> p) \<Longrightarrow>
   (\<Union>(a, b)\<in>set (collect_runs xs cur). {a..b}) =
     set xs \<union> (case cur of None \<Rightarrow> {} | Some (s, p) \<Rightarrow> {s..p})"
  by (induction xs cur rule: collect_runs.induct) auto

lemma collect_runs_nonempty: "xs \<noteq> [] \<or> cur \<noteq> None \<Longrightarrow> collect_runs xs cur \<noteq> []"
  by (induction xs cur rule: collect_runs.induct) auto

lemma set_range_keys: "set (range_keys a b y) = (\<lambda>x. keyOf x y) ` {a..b}"
proof (induction a b y rule: range_keys.induct)
  case (1 x e y)
  show ?case
  proof (cases "x \<le> e")
    case True
    have "{x..e} = insert x {x + 1..e}"
      using True by auto
    with 1 True show ?thesis
      by (subst range_keys.simps) (simp add: keyOf_def)
  next
    case False
    then show ?thesis
      by (subst range_keys.simps) simp
  qed
qed

lemma js_join_nonempty: "xs \<noteq> [] \<Longrightarrow> hd xs \<noteq> [] \<Longrightarrow> js_join sep xs \<noteq> []"
  by (induction sep xs rule: js_join.induct) auto

lemma js_join_chars:
  "\<forall>x\<in>set xs. \<forall>c\<in>set x. P c \<Longrightarrow> \<forall>c\<in>set sep. P c \<Longrightarrow> c \<in> set (js_join sep xs) \<Longrightarrow> P c"
  by (induction sep xs rule: js_join.induct) auto

lemma js_join_contains: "x \<in> set xs \<Longrightarrow> set x \<subseteq> set (js_join sep xs)"
  by (induction sep xs rule: js_join.induct) auto

lemma parse_num_toB36: "0 \<le> n \<Longrightarrow> parse_num True (Some (toB36 n)) = Some n"
  by (simp add: parse_num_def fromB36_def parseInt_u_def str_of_undef_def parseInt_toB36)

lemma range_keys_single: "range_keys a a y = [js_String a @ '','' @ js_String y]"
  by (subst range_keys.simps, subst range_keys.simps) simp

lemma decode_run_run_str:
  assumes "0 \<le> a" "a \<le> b"
  shows "decode_run True y (run_str True (a, b)) = range_keys a b y"
proof (cases "a = b")
  case True
  have "CHR ''-'' \<notin> set (toB36 a)"
    using toB36_seps [OF assms(1)] alnum_seps by blast
  with True assms(1) show ?thesis
    by (simp add: decode_run_def run_str_def fmt_num_def toB36_nonempty parse_num_toB36
        range_keys_single)
next
  case False
  with assms have b: "0 \<le> b" by simp
  have na: "CHR ''-'' \<notin> set (toB36 a)" and nb: "CHR ''-'' \<notin> set (toB36 b)"
    using toB36_seps [OF assms(1)] toB36_seps [OF b] alnum_seps by blast+
  have sp: "js_split CHR ''-'' (toB36 a @ CHR ''-'' # toB36 b) = [toB36 a, toB36 b]"
    by (simp add: js_split_append [OF na] js_split_notin [OF nb])
  show ?thesis
    using False assms b
    by (simp add: decode_run_def run_str_def fmt_num_def Let_def sp destr1_def destr2_def
        js_index_def parse_num_toB36)
qed

lemma run_str_chars:
  assumes "0 \<le> a" "0 \<le> b" "c \<in> set (run_str True (a, b))"
  shows "is_alnum c \<or> c = CHR ''-''"
  using assms toB36_alnum [of a c] toB36_alnum [of b c]
  by (auto simp: run_str_def fmt_num_def Let_def split: if_splits)

lemma runs_str_chars:
  assumes "\<forall>(a, b)\<in>set runs. 0 \<le> a \<and> a \<le> b" "s \<in> set (map (run_str True) runs)" "c \<in> set s"
  shows "is_alnum c \<or> c = CHR ''-''"
proof -
  from assms(2) obtain a b where ab: "(a, b) \<in> set runs" "s = run_str True (a, b)"
    by auto
  with assms(1) have "0 \<le> a" "0 \<le> b" by auto
  then show ?thesis
    using run_str_chars [of a b c] assms(3) ab(2) by simp
qed

lemma sort_nonempty: "xs \<noteq> [] \<Longrightarrow> sort xs \<noteq> []"
  by (metis length_0_conv length_sort)

lemma run_str_nonempty: "run_str True r \<noteq> []"
  by (cases r) (simp add: run_str_def fmt_num_def Let_def toB36_nonempty)

lemma decode_row_row_str:
  assumes "map_of g y = Some xs" "xs \<noteq> []" "\<forall>x\<in>set xs. 0 \<le> x" "0 \<le> y"
  shows "set (decode_row True (row_str True g y)) = (\<lambda>x. keyOf x y) ` set xs"
proof -
  define runs where "runs = collect_runs (sort xs) None"
  define runStr where "runStr = js_join '','' (map (run_str True) runs)"
  have row: "row_str True g y = toB36 y @ CHR '':'' # runStr"
    using assms(1) by (simp add: row_str_def Let_def runs_def runStr_def fmt_num_def)
  have rb: "\<forall>(a, b)\<in>set runs. 0 \<le> a \<and> a \<le> b"
    unfolding runs_def using assms(3) by (intro collect_runs_bounds) simp_all
  have cover: "(\<Union>(a, b)\<in>set runs. {a..b}) = set xs"
    unfolding runs_def using collect_runs_cover [of None "sort xs"] by simp
  have rne: "runs \<noteq> []"
    unfolding runs_def using sort_nonempty [OF assms(2)] by (intro collect_runs_nonempty) simp
  have chars: "\<forall>s\<in>set (map (run_str True) runs). \<forall>c\<in>set s. is_alnum c \<or> c = CHR ''-''"
    using runs_str_chars [OF rb] by blast
  then have nocomma: "\<forall>s\<in>set (map (run_str True) runs). CHR '','' \<notin> set s"
    using alnum_seps by fastforce
  have "\<forall>c\<in>set runStr. is_alnum c \<or> c = CHR ''-'' \<or> c = CHR '',''"
    unfolding runStr_def
    using js_join_chars [of "map (run_str True) runs" "\<lambda>c. is_alnum c \<or> c = CHR ''-'' \<or> c = CHR '',''" "'',''"]
      chars by auto
  then have nocolon: "CHR '':'' \<notin> set runStr"
    using alnum_seps by fastforce
  have ne: "runStr \<noteq> []"
    unfolding runStr_def using rne run_str_nonempty
    by (intro js_join_nonempty) (simp_all add: hd_map)
  have ny: "CHR '':'' \<notin> set (toB36 y)"
    using toB36_seps [OF assms(4)] alnum_seps by blast
  have sp: "js_split CHR '':'' (toB36 y @ CHR '':'' # runStr) = [toB36 y, runStr]"
    by (simp add: js_split_append [OF ny] js_split_notin [OF nocolon])
  have sr: "js_split CHR '','' runStr = map (run_str True) runs"
    unfolding runStr_def using js_split_join [of "map (run_str True) runs" "CHR '',''"] rne nocomma
    by simp
  have "decode_row True (row_str True g y) = concat (map (decode_run True y) (map (run_str True) runs))"
    unfolding row
    using ne assms(4)
    by (simp add: decode_row_def Let_def sp destr1_def destr2_def js_index_def parse_num_toB36 sr)
  also have "set \<dots> = (\<Union>(a, b)\<in>set runs. (\<lambda>x. keyOf x y) ` {a..b})"
  proof -
    have "set (decode_run True y (run_str True r)) = (case r of (a, b) \<Rightarrow> (\<lambda>x. keyOf x y) ` {a..b})"
      if "r \<in> set runs" for r
    proof -
      obtain a b where r: "r = (a, b)" by (cases r)
      with rb that have "0 \<le> a" "a \<le> b" by auto
      then show ?thesis
        unfolding r by (simp add: decode_run_run_str set_range_keys)
    qed
    then show ?thesis by simp
  qed
  also have "\<dots> = (\<lambda>x. keyOf x y) ` (\<Union>(a, b)\<in>set runs. {a..b})"
    by auto
  finally show ?thesis
    unfolding cover .
qed

lemma row_str_chars:
  assumes "map_of g y = Some xs" "\<forall>x\<in>set xs. 0 \<le> x" "0 \<le> y" "c \<in> set (row_str True g y)"
  shows "is_alnum c \<or> c = CHR ''-'' \<or> c = CHR '','' \<or> c = CHR '':''"
proof -
  define runs where "runs = collect_runs (sort xs) None"
  have rb: "\<forall>(a, b)\<in>set runs. 0 \<le> a \<and> a \<le> b"
    unfolding runs_def using assms(2) by (intro collect_runs_bounds) simp_all
  have chars: "\<forall>s\<in>set (map (run_str True) runs). \<forall>c\<in>set s. is_alnum c \<or> c = CHR ''-''"
    using runs_str_chars [OF rb] by blast
  have "\<forall>c\<in>set (js_join '','' (map (run_str True) runs)). is_alnum c \<or> c = CHR ''-'' \<or> c = CHR '',''"
    using js_join_chars [of "map (run_str True) runs" "\<lambda>c. is_alnum c \<or> c = CHR ''-'' \<or> c = CHR '',''" "'',''"]
      chars by auto
  then show ?thesis
    using assms(1,4) toB36_alnum [OF assms(3), of c]
    by (auto simp: row_str_def Let_def runs_def fmt_num_def)
qed

lemma row_str_colon: "CHR '':'' \<in> set (row_str True g y)"
  by (simp add: row_str_def Let_def)

lemma decodeRed_encodeRedRLE:
  assumes "\<forall>(x, y)\<in>set cells. 0 \<le> x \<and> 0 \<le> y"
  shows "set (decodeRed (encodeRedRLE (map (\<lambda>(x, y). keyOf x y) cells) True) True)
         = set (map (\<lambda>(x, y). keyOf x y) cells)"
proof (cases "cells = []")
  case True
  then show ?thesis by (simp add: encodeRedRLE_def decodeRed_def)
next
  case False
  define ks where "ks = map (\<lambda>(x, y). keyOf x y) cells"
  define g where "g = group_byY ks []"
  define rows where "rows = map (row_str True g) (sort (map fst g))"
  have ok0: "byY_ok []" by (simp add: byY_ok_def)
  from group_byY_cells [OF assms ok0]
  have ok: "byY_ok g" and gc: "byY_cells g = set cells"
    by (simp_all add: g_def ks_def byY_cells_Nil)
  have mo: "map_of g y = Some xs \<longleftrightarrow> (y, xs) \<in> set g" for y xs
    using ok by (simp add: byY_ok_def)
  have row_of: "\<exists>xs. map_of g y = Some xs \<and> xs \<noteq> [] \<and> (\<forall>x\<in>set xs. 0 \<le> x) \<and> 0 \<le> y"
    if "y \<in> fst ` set g" for y
  proof -
    from that obtain xs where m: "(y, xs) \<in> set g" by auto
    then have ne: "xs \<noteq> []" using ok by (force simp: byY_ok_def)
    have "\<forall>x\<in>set xs. (x, y) \<in> byY_cells g"
      using m by (auto simp: byY_cells_def)
    then have pos: "\<forall>x\<in>set xs. 0 \<le> x \<and> 0 \<le> y"
      unfolding gc using assms by auto
    with ne have "0 \<le> y" by (cases xs) auto
    with m ne pos show ?thesis by (auto simp: mo)
  qed
  have gne: "g \<noteq> []"
    using gc False by (auto simp: byY_cells_def)
  then have rne: "rows \<noteq> []"
    unfolding rows_def using sort_nonempty [of "map fst g"] by simp
  have rchars: "\<forall>r\<in>set rows. \<forall>c\<in>set r. is_alnum c \<or> c = CHR ''-'' \<or> c = CHR '','' \<or> c = CHR '':''"
  proof (intro ballI)
    fix r c assume "r \<in> set rows" "c \<in> set r"
    then obtain y where y: "y \<in> fst ` set g" "r = row_str True g y"
      by (auto simp: rows_def)
    from row_of [OF y(1)] obtain xs where "map_of g y = Some xs" "\<forall>x\<in>set xs. 0 \<le> x" "0 \<le> y"
      by blast
    then show "is_alnum c \<or> c = CHR ''-'' \<or> c = CHR '','' \<or> c = CHR '':''"
      using row_str_chars [of g y xs c] \<open>c \<in> set r\<close> y(2) by simp
  qed
  then have nosemi: "\<forall>r\<in>set rows. CHR '';'' \<notin> set r"
    using alnum_seps by fastforce
  have enc: "encodeRedRLE ks True = js_join '';'' rows"
    using False by (simp add: encodeRedRLE_def Let_def g_def rows_def ks_def)
  obtain r0 rs where r0: "rows = r0 # rs"
    using rne by (cases rows) auto
  then obtain y0 where "r0 = row_str True g y0"
    by (auto simp: rows_def)
  then have "CHR '':'' \<in> set r0"
    by (simp add: row_str_colon)
  then have colon: "CHR '':'' \<in> set (js_join '';'' rows)"
    using js_join_contains [of r0 rows "'';''"] r0 by auto
  then have sne: "js_join '';'' rows \<noteq> []"
    by auto
  have sp: "js_split CHR '';'' (js_join '';'' rows) = rows"
    using js_split_join [of rows "CHR '';''"] rne nosemi by simp
  have "decodeRed (encodeRedRLE ks True) True = concat (map (decode_row True) rows)"
    unfolding enc using colon sne by (simp add: decodeRed_def Let_def sp)
  also have "set \<dots> = (\<Union>y\<in>fst ` set g. set (decode_row True (row_str True g y)))"
    by (simp add: rows_def)
  also have "\<dots> = (\<lambda>(x, y). keyOf x y) ` byY_cells g"
  proof (intro equalityI subsetI)
    fix k assume "k \<in> (\<Union>y\<in>fst ` set g. set (decode_row True (row_str True g y)))"
    then obtain y where y: "y \<in> fst ` set g" "k \<in> set (decode_row True (row_str True g y))"
      by blast
    from row_of [OF y(1)] obtain xs where xs: "map_of g y = Some xs" "xs \<noteq> []"
      "\<forall>x\<in>set xs. 0 \<le> x" "0 \<le> y"
      by blast
    from y(2) obtain x where "x \<in> set xs" "k = keyOf x y"
      unfolding decode_row_row_str [OF xs] by blast
    moreover have "(y, xs) \<in> set g" using xs(1) by (simp add: mo)
    ultimately show "k \<in> (\<lambda>(x, y). keyOf x y) ` byY_cells g"
      by (force simp: byY_cells_def)
  next
    fix k assume "k \<in> (\<lambda>(x, y). keyOf x y) ` byY_cells g"
    then obtain x y xs where k: "k = keyOf x y" "(y, xs) \<in> set g" "x \<in> set xs"
      by (auto simp: byY_cells_def)
    then have y: "y \<in> fst ` set g" by force
    from k(2) have m: "map_of g y = Some xs"
      by (simp add: mo)
    from row_of [OF y] obtain xs' where "map_of g y = Some xs'" "xs' \<noteq> []"
      "\<forall>x\<in>set xs'. 0 \<le> x" "0 \<le> y"
      by blast
    with m have xs: "map_of g y = Some xs" "xs \<noteq> []" "\<forall>x\<in>set xs. 0 \<le> x" "0 \<le> y"
      by simp_all
    have "k \<in> set (decode_row True (row_str True g y))"
      unfolding decode_row_row_str [OF xs] using k by blast
    with y show "k \<in> (\<Union>y\<in>fst ` set g. set (decode_row True (row_str True g y)))"
      by blast
  qed
  finally show ?thesis
    unfolding gc ks_def by simp
qed

subsection \<open>Tokens\<close>

lemma alnum_ascii: "is_alnum c \<Longrightarrow> (of_char c :: nat) < 128"
  by (auto simp: is_alnum_def Let_def)

lemma kind_code:
  assumes "kind \<in> set [''flag'', ''hq'', ''city'', ''resource'', ''trap'', ''custom'']"
  shows "\<exists>C. KIND_TO_CODE kind = Some [C] \<and> is_alnum C \<and> CODE_TO_KIND [C] = Some kind"
  using assms
  by (auto simp: KIND_TO_CODE_def CODE_TO_KIND_def KIND_CODE_entries_def is_alnum_def)

lemma char0_ascii: "is_alnum C \<Longrightarrow> char0 (C # s) = Some [C] \<and> slice1 (C # s) = s"
  by (auto simp: char0_def slice1_def unit_len_def leading_ones_def Let_def is_alnum_def)

lemma encodeURIComponent_chars:
  "c \<in> set (encodeURIComponent s) \<Longrightarrow> uri_unreserved c \<or> c = CHR ''%''"
proof -
  have "is_alnum d \<Longrightarrow> uri_unreserved d" for d
    by (simp add: uri_unreserved_def)
  then show "c \<in> set (encodeURIComponent s) \<Longrightarrow> uri_unreserved c \<or> c = CHR ''%''"
    using pct_byte_chars by (fastforce simp: encodeURIComponent_def split: if_splits)
qed

lemma unreserved_props:
  "uri_unreserved c \<or> c = CHR ''%'' \<Longrightarrow> (of_char c :: nat) < 128 \<and> c \<noteq> CHR '';''"
  by (auto simp: uri_unreserved_def is_alnum_def Let_def)

text \<open>The parts of a token and what the decoder reads from them.\<close>

lemma decode_token_parts:
  assumes C: "is_alnum C" "CODE_TO_KIND [C] = Some kind" "kind \<noteq> ''block''"
    and sz: "\<forall>c\<in>set sizeField. is_alnum c"
    and cx: "0 \<le> cx" and cy: "0 \<le> cy"
    and lab: "labelPart = [] \<and> label = None \<or>
              (\<exists>l. labelPart = CHR ''~'' # encodeURIComponent l \<and> utf8_ok l \<and> label = Some l)"
  shows "decode_token True (C # sizeField @ CHR ''@'' # toB36 cx @ CHR '','' # toB36 cy @ labelPart) =
    (if kind = ''custom'' \<and> CHR ''x'' \<in> set sizeField then
       Inr [\<lparr>it_kind = kind,
             it_width = Some (parseInt_u (destr1 (js_split CHR ''x'' sizeField)) 36),
             it_height = Some (parseInt_u (destr2 (js_split CHR ''x'' sizeField)) 36),
             it_size = js_max (parseInt_u (destr1 (js_split CHR ''x'' sizeField)) 36)
                              (parseInt_u (destr2 (js_split CHR ''x'' sizeField)) 36),
             it_cx = Some cx, it_cy = Some cy, it_label = label\<rparr>]
     else if kind = ''custom'' then
       Inr [\<lparr>it_kind = kind, it_width = Some (parseInt sizeField 36),
             it_height = Some (parseInt sizeField 36), it_size = parseInt sizeField 36,
             it_cx = Some cx, it_cy = Some cy, it_label = label\<rparr>]
     else
       Inr [\<lparr>it_kind = kind, it_width = None, it_height = None, it_size = parseInt sizeField 36,
             it_cx = Some cx, it_cy = Some cy, it_label = label\<rparr>])"
proof -
  let ?head = "C # sizeField"
  let ?pos = "toB36 cx @ CHR '','' # toB36 cy"
  let ?tail0 = "?pos @ labelPart"
  let ?token = "?head @ CHR ''@'' # ?tail0"
  have tok: "C # sizeField @ CHR ''@'' # toB36 cx @ CHR '','' # toB36 cy @ labelPart = ?token"
    by simp
  have "CHR ''@'' \<notin> set ?head"
    using C(1) sz alnum_seps by auto
  then have at: "js_indexOf CHR ''@'' ?token = int (length ?head)"
    by (rule js_indexOf_append)
  have head: "js_slice ?token 0 (int (length ?head)) = ?head"
    by (rule js_slice_prefix)
  have tail0: "js_slice_from ?token (int (length ?head) + 1) = ?tail0"
    by (rule js_slice_from_suffix)
  have notilde: "CHR ''~'' \<notin> set ?pos"
    using toB36_seps [OF cx] toB36_seps [OF cy] alnum_seps by auto
  have nocomma: "CHR '','' \<notin> set (toB36 cx)" "CHR '','' \<notin> set (toB36 cy)"
    using toB36_seps [OF cx] toB36_seps [OF cy] alnum_seps by auto
  have sp: "js_split CHR '','' ?pos = [toB36 cx, toB36 cy]"
    by (simp add: js_split_append [OF nocomma(1)] js_split_notin [OF nocomma(2)])
  have px: "parseInt_u (destr1 [toB36 cx, toB36 cy]) 36 = Some cx"
    and py: "parseInt_u (destr2 [toB36 cx, toB36 cy]) 36 = Some cy"
    using cx cy by (simp_all add: destr1_def destr2_def js_index_def parseInt_u_def
        str_of_undef_def parseInt_toB36)
  have c0: "char0 ?head = Some [C]" "slice1 ?head = sizeField"
    using char0_ascii [OF C(1)] by simp_all
  have lbl: "(if js_indexOf CHR ''~'' ?tail0 \<ge> 0
              then (case decodeURIComponent (js_slice_from ?tail0 (js_indexOf CHR ''~'' ?tail0 + 1)) of
                      Inl e \<Rightarrow> Inl e | Inr l \<Rightarrow> Inr (Some l))
              else Inr None) = Inr label
           \<and> (if js_indexOf CHR ''~'' ?tail0 \<ge> 0 then js_slice ?tail0 0 (js_indexOf CHR ''~'' ?tail0)
               else ?tail0) = ?pos"
  proof (cases "labelPart = []")
    case True
    with lab have "label = None" by auto
    with True show ?thesis
      using js_indexOf_notin [OF notilde] by simp
  next
    case False
    with lab obtain l where l: "labelPart = CHR ''~'' # encodeURIComponent l" "utf8_ok l"
      "label = Some l"
      by auto
    have i: "js_indexOf CHR ''~'' (?pos @ CHR ''~'' # encodeURIComponent l) = int (length ?pos)"
      using notilde by (rule js_indexOf_append)
    have a: "js_slice_from (?pos @ CHR ''~'' # encodeURIComponent l) (int (length ?pos) + 1)
        = encodeURIComponent l"
      by (rule js_slice_from_suffix)
    have b: "js_slice (?pos @ CHR ''~'' # encodeURIComponent l) 0 (int (length ?pos)) = ?pos"
      by (rule js_slice_prefix)
    show ?thesis
      unfolding l(1) i a b using l(2,3) by (simp add: decode_encode_URIComponent)
  qed
  show ?thesis
    unfolding tok decode_token_def
    apply (simp only: at head tail0 Let_def)
    apply (simp only: lbl c0 sp px py)
    using C(2,3) by (simp add: parseInt_u_def str_of_undef_def)
qed

lemma block_token_eq:
  assumes "KIND_TO_CODE (b_kind b) = Some [C]"
  shows "block_token css b =
     C # size_field b @ CHR ''@'' # toB36 (fst (posToCell css (b_left b) (b_top b)))
       @ CHR '','' # toB36 (snd (posToCell css (b_left b) (b_top b))) @ label_part b"
  using assms
  by (simp add: block_token_def size_field_def label_part_def persisted_label_def posToCell_def
      Let_def)

lemma valid_block_custom:
  assumes "valid_block css b" "b_kind b = ''custom''"
  shows "\<exists>w h. b_width b = Some w \<and> b_height b = Some h \<and> 1 \<le> w \<and> w \<le> 30 \<and> 1 \<le> h \<and> h \<le> 30
           \<and> b_size b = max w h"
  using assms by (auto simp: valid_block_def split: option.splits)

lemma size_field_alnum:
  assumes "valid_block css b" "c \<in> set (size_field b)"
  shows "is_alnum c"
proof (cases "b_kind b = ''custom''")
  case True
  from valid_block_custom [OF assms(1) True] obtain w h where
    wh: "b_width b = Some w" "b_height b = Some h" "1 \<le> w" "1 \<le> h"
    by blast
  have "is_alnum CHR ''x''" by (simp add: is_alnum_def)
  with True wh assms(2) show ?thesis
    using toB36_alnum [of w c] toB36_alnum [of h c]
    by (auto simp: size_field_def or_size_def)
next
  case False
  from assms(1) have "0 \<le> b_size b" by (simp add: valid_block_def)
  with False assms(2) show ?thesis
    using toB36_alnum [of "b_size b" c] by (simp add: size_field_def)
qed

lemma label_part_cases:
  assumes "valid_block css b"
  shows "label_part b = [] \<and> persisted_label b = None \<or>
         (\<exists>l. label_part b = CHR ''~'' # encodeURIComponent l \<and> utf8_ok l \<and> persisted_label b = Some l)"
proof (cases "persisted_label b")
  case None
  then show ?thesis by (simp add: label_part_def)
next
  case (Some l)
  then have "l = js_trim (b_labelText b)"
    by (auto simp: persisted_label_def Let_def split: if_splits)
  with assms have "utf8_ok l" by (simp add: valid_block_def)
  with Some show ?thesis by (simp add: label_part_def)
qed

lemma decode_block_token:
  assumes v: "valid_block css b"
  shows "decode_token True (block_token css b) = Inr [expected_item css b]"
proof -
  from v have k: "b_kind b \<in> set [''flag'', ''hq'', ''city'', ''resource'', ''trap'', ''custom'']"
    by (simp add: valid_block_def)
  from kind_code [OF k] obtain C where C: "KIND_TO_CODE (b_kind b) = Some [C]" "is_alnum C"
    "CODE_TO_KIND [C] = Some (b_kind b)"
    by blast
  from k have nb: "b_kind b \<noteq> ''block''" by auto
  let ?cx = "fst (posToCell css (b_left b) (b_top b))"
  let ?cy = "snd (posToCell css (b_left b) (b_top b))"
  from v have pos: "0 \<le> ?cx" "0 \<le> ?cy" by (simp_all add: valid_block_def)
  have sz: "\<forall>c\<in>set (size_field b). is_alnum c"
    using size_field_alnum [OF v] by blast
  note parts = decode_token_parts [OF C(2,3) nb sz pos label_part_cases [OF v]]
  show ?thesis
  proof (cases "b_kind b = ''custom''")
    case True
    from valid_block_custom [OF v True] obtain w h where
      wh: "b_width b = Some w" "b_height b = Some h" "1 \<le> w" "w \<le> 30" "1 \<le> h" "h \<le> 30"
        "b_size b = max w h"
      by blast
    have sf: "size_field b = toB36 w @ CHR ''x'' # toB36 h"
      using True wh by (simp add: size_field_def or_size_def)
    have nx: "CHR ''x'' \<notin> set (toB36 w)" "CHR ''x'' \<notin> set (toB36 h)"
      using wh by (simp_all add: toB36_no_x)
    have sp: "js_split CHR ''x'' (toB36 w @ CHR ''x'' # toB36 h) = [toB36 w, toB36 h]"
      by (simp add: js_split_append [OF nx(1)] js_split_notin [OF nx(2)])
    have pw: "parseInt_u (destr1 [toB36 w, toB36 h]) 36 = Some w"
      and ph: "parseInt_u (destr2 [toB36 w, toB36 h]) 36 = Some h"
      using wh by (simp_all add: destr1_def destr2_def js_index_def parseInt_u_def
          str_of_undef_def parseInt_toB36)
    show ?thesis
      unfolding block_token_eq [OF C(1)] parts
      unfolding sf sp pw ph
      using True wh by (simp add: expected_item_def js_max_def)
  next
    case False
    from v have "0 \<le> b_size b" by (simp add: valid_block_def)
    then have ps: "parseInt (size_field b) 36 = Some (b_size b)"
      using False by (simp add: size_field_def parseInt_toB36)
    show ?thesis
      unfolding block_token_eq [OF C(1)] parts
      using False by (simp add: ps expected_item_def)
  qed
qed

lemma block_token_chars:
  assumes v: "valid_block css b" and c: "c \<in> set (block_token css b)"
  shows "(of_char c :: nat) < 128 \<and> c \<noteq> CHR '';''"
proof -
  from v have k: "b_kind b \<in> set [''flag'', ''hq'', ''city'', ''resource'', ''trap'', ''custom'']"
    by (simp add: valid_block_def)
  from kind_code [OF k] obtain C where C: "KIND_TO_CODE (b_kind b) = Some [C]" "is_alnum C"
    by blast
  let ?cx = "fst (posToCell css (b_left b) (b_top b))"
  let ?cy = "snd (posToCell css (b_left b) (b_top b))"
  from v have pos: "0 \<le> ?cx" "0 \<le> ?cy" by (simp_all add: valid_block_def)
  have an: "is_alnum d \<Longrightarrow> (of_char d :: nat) < 128 \<and> d \<noteq> CHR '';''" for d
    using alnum_ascii [of d] alnum_seps by auto
  have lp: "d \<in> set (label_part b) \<Longrightarrow> (of_char d :: nat) < 128 \<and> d \<noteq> CHR '';''" for d
    using unreserved_props [of d] encodeURIComponent_chars [of d]
    by (auto simp: label_part_def split: option.splits)
  from c have "c = C \<or> c \<in> set (size_field b) \<or> c = CHR ''@'' \<or> c \<in> set (toB36 ?cx)
      \<or> c = CHR '','' \<or> c \<in> set (toB36 ?cy) \<or> c \<in> set (label_part b)"
    unfolding block_token_eq [OF C(1)] by auto
  then show ?thesis
    using an [of c] C(2) size_field_alnum [OF v, of c] toB36_alnum [OF pos(1), of c]
      toB36_alnum [OF pos(2), of c] lp [of c]
    by auto
qed

lemma decode_tokens_blocks:
  "\<forall>b\<in>set bs. valid_block css b \<Longrightarrow>
   decode_tokens True (map (block_token css) bs) = Inr (map (expected_item css) bs)"
  by (induction bs) (simp_all add: decode_block_token)

lemma encodeRedRLE_chars:
  assumes "\<forall>(x, y)\<in>set cells. 0 \<le> x \<and> 0 \<le> y"
    and "c \<in> set (encodeRedRLE (map (\<lambda>(x, y). keyOf x y) cells) True)"
  shows "(of_char c :: nat) < 128"
proof (cases "cells = []")
  case True
  with assms(2) show ?thesis by (simp add: encodeRedRLE_def)
next
  case False
  define ks where "ks = map (\<lambda>(x, y). keyOf x y) cells"
  define g where "g = group_byY ks []"
  define rows where "rows = map (row_str True g) (sort (map fst g))"
  have ok0: "byY_ok []" by (simp add: byY_ok_def)
  from group_byY_cells [OF assms(1) ok0]
  have ok: "byY_ok g" and gc: "byY_cells g = set cells"
    by (simp_all add: g_def ks_def byY_cells_Nil)
  have mo: "map_of g y = Some xs \<longleftrightarrow> (y, xs) \<in> set g" for y xs
    using ok by (simp add: byY_ok_def)
  have rchars: "\<forall>r\<in>set rows. \<forall>c\<in>set r. (of_char c :: nat) < 128"
  proof (intro ballI)
    fix r d assume r: "r \<in> set rows" "d \<in> set r"
    then obtain y xs where y: "(y, xs) \<in> set g" "r = row_str True g y"
      by (auto simp: rows_def)
    then have ne: "xs \<noteq> []" using ok by (force simp: byY_ok_def)
    have "\<forall>x\<in>set xs. (x, y) \<in> byY_cells g"
      using y(1) by (auto simp: byY_cells_def)
    then have pos: "\<forall>x\<in>set xs. 0 \<le> x \<and> 0 \<le> y"
      unfolding gc using assms(1) by auto
    with ne have "0 \<le> y" by (cases xs) auto
    with pos y have "is_alnum d \<or> d = CHR ''-'' \<or> d = CHR '','' \<or> d = CHR '':''"
      using row_str_chars [of g y xs d] r(2) by (simp add: mo)
    then show "(of_char d :: nat) < 128"
      using alnum_ascii [of d] by auto
  qed
  have enc: "encodeRedRLE ks True = js_join '';'' rows"
    using False by (simp add: encodeRedRLE_def Let_def g_def rows_def ks_def)
  show ?thesis
    using js_join_chars [of rows "\<lambda>c. (of_char c :: nat) < 128" "'';''" c] rchars assms(2)
    unfolding ks_def [symmetric] enc by simp
qed

subsection \<open>The worked example of the run-length encoding\<close>

text \<open>
  Claim C7 (example of the paint encoding). Encoding the user paint cells \<open>(0,0)\<close>,
  \<open>(1,0)\<close>, \<open>(2,0)\<close>, \<open>(5,1)\<close> row by row gives the rows \<open>0:0-2\<close> and
  \<open>1:5\<close>, joined as \<open>0:0-2;1:5\<close> (the cell \<open>(5,1)\<close> lies in row 1), and decoding
  that string yields exactly those four cells.
\<close>

theorem encodeRedRLE_example:
  "encodeRedRLE [keyOf 0 0, keyOf 1 0, keyOf 2 0, keyOf 5 1] True = ''0:0-2;1:5'' \<and>
   decodeRed ''0:0-2;1:5'' True = [keyOf 0 0, keyOf 1 0, keyOf 2 0, keyOf 5 1]"
  by code_simp

text \<open>
  Claim C7 as it was stated fails: the encoding is not \<open>0:0-2,5\<close>, and that string
  decodes to the cells \<open>(0,0)\<close>, \<open>(1,0)\<close>, \<open>(2,0)\<close>, \<open>(5,0)\<close>, without
  \<open>(5,1)\<close>.
\<close>

theorem encodeRedRLE_example_counterexample:
  "encodeRedRLE [keyOf 0 0, keyOf 1 0, keyOf 2 0, keyOf 5 1] True \<noteq> ''0:0-2,5'' \<and>
   decodeRed ''0:0-2,5'' True = [keyOf 0 0, keyOf 1 0, keyOf 2 0, keyOf 5 0] \<and>
   keyOf 5 1 \<notin> set (decodeRed ''0:0-2,5'' True)"
  by code_simp

subsection \<open>The round trip of the state\<close>

text \<open>
  Claim C1 (round trip). For every state whose blocks that are not immutable are valid
  (a palette kind, a cell position that is not negative, sizes within the limits, label
  text that is well-formed) and whose user paint is any list of cells with coordinates that
  are not negative, \<open>deserializeState\<close> of \<open>serializeState\<close> returns normally with
  version 2; the decoded entries are, in order, those of the blocks that are not immutable,
  each with the block's kind, size (width and height for a custom block) and cell position;
  an entry carries a label exactly when the block is a city or custom block whose trimmed
  label text is not empty and not a default, and the label is that text; the labels of
  other kinds are not carried. The decoded paint keys are exactly the keys of the painted
  cells.
\<close>

theorem serialize_deserialize_roundtrip:
  assumes "list_all (\<lambda>b. b_immutable b \<or> valid_block css b) bs"
    and "list_all (\<lambda>(x, y). 0 \<le> x \<and> 0 \<le> y) cells"
  shows "deserializeState
           (serializeState css \<lparr>st_blocks = bs, st_userPaint = map (\<lambda>(x, y). keyOf x y) cells\<rparr>) =
         Inr \<lparr>p_blocks = map (expected_item css) (filter (\<lambda>b. \<not> b_immutable b) bs),
              p_red = decodeRed (encodeRedRLE (map (\<lambda>(x, y). keyOf x y) cells) True) True,
              p_ver = ''2''\<rparr> \<and>
         set (decodeRed (encodeRedRLE (map (\<lambda>(x, y). keyOf x y) cells) True) True) =
           (\<lambda>(x, y). keyOf x y) ` set cells"
proof -
  define bs' where "bs' = filter (\<lambda>b. \<not> b_immutable b) bs"
  define tokens where "tokens = map (block_token css) bs'"
  define bstr where "bstr = js_join '';'' tokens"
  define ks where "ks = map (\<lambda>(x, y). keyOf x y) cells"
  define rRLE where "rRLE = encodeRedRLE ks True"
  define params where "params = (if rRLE \<noteq> [] then [(''v'', ''2''), (''b'', bstr), (''r'', rRLE)]
                                else [(''v'', ''2''), (''b'', bstr)])"
  have vb: "\<forall>b\<in>set bs'. valid_block css b"
    using assms(1) by (auto simp: bs'_def list_all_iff)
  have cp: "\<forall>(x, y)\<in>set cells. 0 \<le> x \<and> 0 \<le> y"
    using assms(2) by (simp add: list_all_iff)
  have ser: "serializeState css \<lparr>st_blocks = bs, st_userPaint = ks\<rparr> = usp_toString params"
    by (simp add: serializeState_def Let_def usp_set_def params_def rRLE_def bstr_def tokens_def
        bs'_def)
  have tchars: "\<forall>t\<in>set tokens. \<forall>c\<in>set t. (of_char c :: nat) < 128 \<and> c \<noteq> CHR '';''"
    using vb block_token_chars by (auto simp: tokens_def)
  have b_ascii: "\<forall>c\<in>set bstr. (of_char c :: nat) < 128"
    using js_join_chars [of tokens "\<lambda>c. (of_char c :: nat) < 128" "'';''"] tchars
    by (auto simp: bstr_def)
  have r_ascii: "\<forall>c\<in>set rRLE. (of_char c :: nat) < 128"
    using encodeRedRLE_chars [OF cp] by (simp add: rRLE_def ks_def)
  have "usp_parse (usp_toString params) = params"
    by (rule usp_parse_toString) (use b_ascii r_ascii in \<open>auto simp: params_def\<close>)
  then have parse: "usp_parse (serializeState css \<lparr>st_blocks = bs, st_userPaint = ks\<rparr>) = params"
    by (simp add: ser)
  have gv: "str_or (usp_get ''v'' params) ''1'' = ''2''"
    by (simp add: params_def usp_get_def str_or_def)
  have gb: "str_or (usp_get ''b'' params) [] = bstr"
    by (simp add: params_def usp_get_def str_or_def)
  have gr: "str_or (usp_get ''r'' params) [] = rRLE"
    by (simp add: params_def usp_get_def str_or_def)
  have dt: "decode_tokens True (js_split CHR '';'' bstr) = Inr (map (expected_item css) bs')"
  proof (cases "bs' = []")
    case True
    then show ?thesis
      by (simp add: bstr_def tokens_def decode_token_def)
  next
    case False
    then have "tokens \<noteq> []" by (simp add: tokens_def)
    moreover have "\<forall>t\<in>set tokens. CHR '';'' \<notin> set t"
      using tchars by blast
    ultimately have "js_split CHR '';'' bstr = tokens"
      unfolding bstr_def using js_split_join [of tokens "CHR '';''"] by simp
    then show ?thesis
      using decode_tokens_blocks [OF vb] by (simp add: tokens_def)
  qed
  have "deserializeState (serializeState css \<lparr>st_blocks = bs, st_userPaint = ks\<rparr>) =
      Inr \<lparr>p_blocks = map (expected_item css) bs', p_red = decodeRed rRLE True, p_ver = ''2''\<rparr>"
    unfolding deserializeState_def Let_def parse gv gb gr
    by (simp add: dt)
  moreover have "set (decodeRed rRLE True) = (\<lambda>(x, y). keyOf x y) ` set cells"
    unfolding rRLE_def ks_def using decodeRed_encodeRedRLE [OF cp] by simp
  ultimately show ?thesis
    unfolding bs'_def rRLE_def ks_def by simp
qed

theorem serialize_deserialize_roundtrip_witness:
  "list_all (\<lambda>b. b_immutable b \<or> valid_block ''48'' b)
     [\<lparr>b_kind = ''trap'', b_size = 3, b_left = 240, b_top = 480, b_width = None,
       b_height = None, b_immutable = False, b_labelText = ''Trap'', b_customLabel = False\<rparr>,
      \<lparr>b_kind = ''castle'', b_size = 6, b_left = 0, b_top = 0, b_width = None,
       b_height = None, b_immutable = True, b_labelText = ''Castle'', b_customLabel = False\<rparr>,
      \<lparr>b_kind = ''custom'', b_size = 7, b_left = 96, b_top = 144, b_width = Some 4,
       b_height = Some 7, b_immutable = False, b_labelText = ''Outpost'', b_customLabel = True\<rparr>] \<and>
   list_all (\<lambda>(x, y). 0 \<le> x \<and> 0 \<le> y) ([(0, 0), (1, 0), (2, 0), (5, 1)] :: (int \<times> int) list) \<and>
   deserializeState
     (serializeState ''48''
        \<lparr>st_blocks =
           [\<lparr>b_kind = ''trap'', b_size = 3, b_left = 240, b_top = 480, b_width = None,
             b_height = None, b_immutable = False, b_labelText = ''Trap'', b_customLabel = False\<rparr>,
            \<lparr>b_kind = ''castle'', b_size = 6, b_left = 0, b_top = 0, b_width = None,
             b_height = None, b_immutable = True, b_labelText = ''Castle'', b_customLabel = False\<rparr>,
            \<lparr>b_kind = ''custom'', b_size = 7, b_left = 96, b_top = 144, b_width = Some 4,
             b_height = Some 7, b_immutable = False, b_labelText = ''Outpost'',
             b_customLabel = True\<rparr>],
         st_userPaint = map (\<lambda>(x, y). keyOf x y) [(0, 0), (1, 0), (2, 0), (5, 1)]\<rparr>) =
   Inr \<lparr>p_blocks =
          [\<lparr>it_kind = ''trap'', it_width = None, it_height = None, it_size = Some 3,
            it_cx = Some 5, it_cy = Some 10, it_label = None\<rparr>,
           \<lparr>it_kind = ''custom'', it_width = Some (Some 4), it_height = Some (Some 7),
            it_size = Some 7, it_cx = Some 2, it_cy = Some 3, it_label = Some ''Outpost''\<rparr>],
        p_red = [''0,0'', ''1,0'', ''2,0'', ''5,1''], p_ver = ''2''\<rparr>"
proof -
  let ?bs = "[\<lparr>b_kind = ''trap'', b_size = 3, b_left = 240, b_top = 480, b_width = None,
       b_height = None, b_immutable = False, b_labelText = ''Trap'', b_customLabel = False\<rparr>,
      \<lparr>b_kind = ''castle'', b_size = 6, b_left = 0, b_top = 0, b_width = None,
       b_height = None, b_immutable = True, b_labelText = ''Castle'', b_customLabel = False\<rparr>,
      \<lparr>b_kind = ''custom'', b_size = 7, b_left = 96, b_top = 144, b_width = Some 4,
       b_height = Some 7, b_immutable = False, b_labelText = ''Outpost'', b_customLabel = True\<rparr>]"
  let ?cells = "[(0, 0), (1, 0), (2, 0), (5, 1)] :: (int \<times> int) list"
  have h1: "list_all (\<lambda>b. b_immutable b \<or> valid_block ''48'' b) ?bs"
    by code_simp
  have h2: "list_all (\<lambda>(x, y). 0 \<le> x \<and> 0 \<le> y) ?cells"
    by simp
  have e1: "map (expected_item ''48'') (filter (\<lambda>b. \<not> b_immutable b) ?bs) =
      [\<lparr>it_kind = ''trap'', it_width = None, it_height = None, it_size = Some 3,
        it_cx = Some 5, it_cy = Some 10, it_label = None\<rparr>,
       \<lparr>it_kind = ''custom'', it_width = Some (Some 4), it_height = Some (Some 7),
        it_size = Some 7, it_cx = Some 2, it_cy = Some 3, it_label = Some ''Outpost''\<rparr>]"
    by code_simp
  have e2: "decodeRed (encodeRedRLE (map (\<lambda>(x, y). keyOf x y) ?cells) True) True
      = [''0,0'', ''1,0'', ''2,0'', ''5,1'']"
    by code_simp
  from serialize_deserialize_roundtrip [OF h1 h2]
  have "deserializeState
     (serializeState ''48'' \<lparr>st_blocks = ?bs, st_userPaint = map (\<lambda>(x, y). keyOf x y) ?cells\<rparr>) =
    Inr \<lparr>p_blocks = map (expected_item ''48'') (filter (\<lambda>b. \<not> b_immutable b) ?bs),
         p_red = decodeRed (encodeRedRLE (map (\<lambda>(x, y). keyOf x y) ?cells) True) True,
         p_ver = ''2''\<rparr>"
    by (rule conjunct1)
  then have r: "deserializeState
     (serializeState ''48'' \<lparr>st_blocks = ?bs, st_userPaint = map (\<lambda>(x, y). keyOf x y) ?cells\<rparr>) =
    Inr \<lparr>p_blocks =
          [\<lparr>it_kind = ''trap'', it_width = None, it_height = None, it_size = Some 3,
            it_cx = Some 5, it_cy = Some 10, it_label = None\<rparr>,
           \<lparr>it_kind = ''custom'', it_width = Some (Some 4), it_height = Some (Some 7),
            it_size = Some 7, it_cx = Some 2, it_cy = Some 3, it_label = Some ''Outpost''\<rparr>],
         p_red = [''0,0'', ''1,0'', ''2,0'', ''5,1''], p_ver = ''2''\<rparr>"
    unfolding e1 e2 .
  show ?thesis
    by (intro conjI h1 h2 r)
qed

text \<open>
  Claim C1 as it was stated, with every custom label kept, fails: \<open>startEditLabel\<close>
  lets a trap, hq or resource block be renamed, and \<open>serializeState\<close> writes the label
  of a city or custom block only. A trap renamed to \<open>Gate\<close> comes back without label.
\<close>

theorem roundtrip_label_counterexample:
  "valid_block ''48''
     \<lparr>b_kind = ''trap'', b_size = 3, b_left = 240, b_top = 480, b_width = None,
      b_height = None, b_immutable = False, b_labelText = ''Gate'', b_customLabel = True\<rparr> \<and>
   deserializeState
     (serializeState ''48''
        \<lparr>st_blocks =
           [\<lparr>b_kind = ''trap'', b_size = 3, b_left = 240, b_top = 480, b_width = None,
             b_height = None, b_immutable = False, b_labelText = ''Gate'', b_customLabel = True\<rparr>],
         st_userPaint = []\<rparr>) =
   Inr \<lparr>p_blocks =
          [\<lparr>it_kind = ''trap'', it_width = None, it_height = None, it_size = Some 3,
            it_cx = Some 5, it_cy = Some 10, it_label = None\<rparr>],
        p_red = [], p_ver = ''2''\<rparr> \<and>
   \<not> claimed_equivalent ''48''
       \<lparr>b_kind = ''trap'', b_size = 3, b_left = 240, b_top = 480, b_width = None,
        b_height = None, b_immutable = False, b_labelText = ''Gate'', b_customLabel = True\<rparr>
       \<lparr>it_kind = ''trap'', it_width = None, it_height = None, it_size = Some 3,
        it_cx = Some 5, it_cy = Some 10, it_label = None\<rparr>"
  by code_simp

subsection \<open>Parse failures\<close>

text \<open>
  Claim C2 (numeric parse failures while decoding): every numeric parse failure drops only
  its own token or run, decoding never throws, and no number that is not finite appears in
  the decoded output. \<open>decodeRed\<close> guards each number with \<open>Number.isFinite\<close> and
  the version-1 object path replaces a failed number by a default, but the version-2 object
  path of \<open>deserializeState\<close> has no guard: the token \<open>T3@,5\<close> is kept with the
  coordinate \<open>NaN\<close>, where the same token in a version-1 string gets 0 and a paint run
  that does not parse is dropped. And the label part \<open>%\<close> makes
  \<open>decodeURIComponent\<close> throw \<open>URIError\<close>, which nothing catches.
\<close>

theorem deserializeState_unguarded:
  "deserializeState ''v=2&b=T3@,5'' =
     Inr \<lparr>p_blocks = [\<lparr>it_kind = ''trap'', it_width = None, it_height = None, it_size = Some 3,
                        it_cx = None, it_cy = Some 5, it_label = None\<rparr>],
          p_red = [], p_ver = ''2''\<rparr> \<and>
   deserializeState ''v=2&b=C2@1,1~%'' = Inl URIError \<and>
   deserializeState ''b=T3@,5'' =
     Inr \<lparr>p_blocks = [\<lparr>it_kind = ''trap'', it_width = None, it_height = None, it_size = Some 3,
                        it_cx = Some 0, it_cy = Some 5, it_label = None\<rparr>],
          p_red = [], p_ver = ''1''\<rparr> \<and>
   decodeRed ''0:?,5'' True = [''5,0'']"
  by code_simp

end
